theory Spec2Isabelle
  imports Main "HOL-Library.Sublist"
begin

section \<open>Strings and arrays of the host language\<close>

text \<open>
  A JavaScript string is a sequence of UTF-16 code units. The model uses \<^typ>\<open>string\<close>
  (a list of \<^typ>\<open>char\<close>), that is, the strings whose code units lie in the range 0..255.
  Every function of the path module inspects code units only by comparing them with
  ASCII literals, so the translation is literal on this range.
\<close>

text \<open>The module constant \<^verbatim>\<open>sep = "/"\<close> (unix directory path separator).\<close>

definition sep :: string where
  "sep = ''/''"

text \<open>
  \<^verbatim>\<open>String.prototype.split(separator)\<close> for a separator of one code unit:
  the pieces between the occurrences of the separator; the empty string gives one
  empty piece, so the result is never empty.
\<close>

fun str_split :: "char \<Rightarrow> string \<Rightarrow> string list" where
  "str_split c [] = [[]]"
| "str_split c (x # xs) =
     (if x = c then [] # str_split c xs
      else (case str_split c xs of
              [] \<Rightarrow> [[x]]
            | seg # segs \<Rightarrow> (x # seg) # segs))"

text \<open>\<^verbatim>\<open>Array.prototype.join(separator)\<close>; the empty array gives the empty string.\<close>

fun str_join :: "string \<Rightarrow> string list \<Rightarrow> string" where
  "str_join s [] = []"
| "str_join s [x] = x"
| "str_join s (x # y # ys) = x @ s @ str_join s (y # ys)"

text \<open>
  \<^verbatim>\<open>Array.prototype.at(-1)\<close> gives \<^verbatim>\<open>undefined\<close> on the empty array,
  \<^verbatim>\<open>pop()\<close> and \<^verbatim>\<open>shift()\<close> leave the empty array empty,
  \<^verbatim>\<open>push(x)\<close> appends.
\<close>

definition at_last :: "'a list \<Rightarrow> 'a option" where
  "at_last xs = (case xs of [] \<Rightarrow> None | _ \<Rightarrow> Some (last xs))"

lemma at_last_Nil: "at_last [] = None"
  by (simp add: at_last_def)

lemma at_last_nonempty: "xs \<noteq> [] \<Longrightarrow> at_last xs = Some (last xs)"
  by (cases xs) (simp_all add: at_last_def)

definition array_pop :: "'a list \<Rightarrow> 'a list" where
  "array_pop xs = butlast xs"

definition array_push :: "'a list \<Rightarrow> 'a \<Rightarrow> 'a list" where
  "array_push xs x = xs @ [x]"

definition array_shift :: "'a list \<Rightarrow> 'a list" where
  "array_shift xs = (case xs of [] \<Rightarrow> [] | _ # rest \<Rightarrow> rest)"

section \<open>normalizeUnixPath\<close>

text \<open>
  The body of the \<^verbatim>\<open>for (const segment of segments)\<close> loop of
  \<^verbatim>\<open>normalizeUnixPath\<close>, acting on \<^verbatim>\<open>output_segments\<close>.
\<close>

definition normalize_step :: "string list \<Rightarrow> string \<Rightarrow> string list" where
  "normalize_step output_segments segment =
     (if segment = ''..'' then
        (if at_last output_segments \<noteq> Some ''..'' then array_pop output_segments
         else array_push output_segments segment)
      else if segment \<noteq> ''.'' then array_push output_segments segment
      else output_segments)"

fun normalize_loop :: "string list \<Rightarrow> string list \<Rightarrow> string list" where
  "normalize_loop output_segments [] = output_segments"
| "normalize_loop output_segments (segment # segments) =
     normalize_loop (normalize_step output_segments segment) segments"

definition normalizeUnixPath :: "string \<Rightarrow> string" where
  "normalizeUnixPath path =
     (let segments = str_split (CHR ''/'') path;
          output_segments = normalize_loop [''..''] segments
      in str_join sep (array_shift output_segments))"

text \<open>The segments that \<^const>\<open>normalizeUnixPath\<close> joins.\<close>

definition output_segments_of :: "string \<Rightarrow> string list" where
  "output_segments_of path = array_shift (normalize_loop [''..''] (str_split (CHR ''/'') path))"

text \<open>
  The stack of \<^const>\<open>normalize_loop\<close> always is a non-empty run of \<open>..\<close> followed
  by segments that are neither \<open>.\<close> nor \<open>..\<close>.
\<close>

definition stack_shape :: "string list \<Rightarrow> bool" where
  "stack_shape out \<longleftrightarrow>
     (\<exists>k rest. out = replicate (Suc k) ''..'' @ rest \<and> ''.'' \<notin> set rest \<and> ''..'' \<notin> set rest)"

subsection \<open>The sentinel-stack algorithm as the specification words it\<close>

text \<open>
  The stack is a list whose head is the top. A segment \<open>.\<close> is dropped; a segment
  \<open>..\<close> pops the top unless the top is \<open>..\<close>, in which case it is pushed; every
  other segment is pushed. The sentinel at the bottom is removed before joining.
\<close>

fun spec_walk :: "string list \<Rightarrow> string list \<Rightarrow> string list" where
  "spec_walk stack [] = stack"
| "spec_walk stack (seg # segs) =
     (if seg = ''.'' then spec_walk stack segs
      else if seg = ''..'' then
        (case stack of
           [] \<Rightarrow> spec_walk [] segs
         | tp # below \<Rightarrow>
             if tp = ''..'' then spec_walk (seg # stack) segs
             else spec_walk below segs)
      else spec_walk (seg # stack) segs)"

definition spec_normalizeUnixPath :: "string \<Rightarrow> string" where
  "spec_normalizeUnixPath p =
     str_join ''/'' (drop 1 (rev (spec_walk [''..''] (str_split (CHR ''/'') p))))"

section \<open>getUriScheme\<close>

text \<open>The union type \<^verbatim>\<open>UriScheme\<close>, \<^verbatim>\<open>undefined\<close> included.\<close>

datatype UriScheme = Undefined | Local | Relative | File | Http | Https | Data | Jsr | Npm

text \<open>
  \<^verbatim>\<open>uri_protocol_and_scheme_mapping\<close>: the entries of the object literal, in the order
  in which \<^verbatim>\<open>Object.entries\<close> lists string keys, which is the order of the literal.
\<close>

definition uri_protocol_and_scheme_mapping :: "(string \<times> UriScheme) list" where
  "uri_protocol_and_scheme_mapping =
     [(''npm:'', Npm),
      (''jsr:'', Jsr),
      (''data:'', Data),
      (''http://'', Http),
      (''https://'', Https),
      (''file://'', File),
      (''./'', Relative),
      (''../'', Relative)]"

text \<open>
  Modelled from the spec: \<^verbatim>\<open>bind_string_startsWith\<close> of \<^verbatim>\<open>binder.js\<close> is not among
  the sources. The specification describes the scan as a literal prefix match, so
  \<^verbatim>\<open>bind_string_startsWith(path)\<close> is \<^verbatim>\<open>String.prototype.startsWith\<close> bound to
  \<^verbatim>\<open>path\<close>.
\<close>

definition bind_string_startsWith :: "string \<Rightarrow> string \<Rightarrow> bool" where
  "bind_string_startsWith path protocol = prefix protocol path"

text \<open>The \<^verbatim>\<open>for (const [protocol, scheme] of ...)\<close> loop with its early return.\<close>

fun getUriScheme_loop :: "string \<Rightarrow> (string \<times> UriScheme) list \<Rightarrow> UriScheme" where
  "getUriScheme_loop path [] = Local"
| "getUriScheme_loop path ((protocol, scheme) # mapping) =
     (if bind_string_startsWith path protocol then scheme
      else getUriScheme_loop path mapping)"

definition getUriScheme :: "string \<Rightarrow> UriScheme" where
  "getUriScheme path =
     (if path = [] then Undefined
      else getUriScheme_loop path uri_protocol_and_scheme_mapping)"

section \<open>Regular expressions of the host language\<close>

text \<open>
  The regular expression literals of the module use literals, negated character classes,
  the dot, sequencing, alternation, the greedy quantifiers \<^verbatim>\<open>*\<close>, \<^verbatim>\<open>+\<close>, \<^verbatim>\<open>?\<close>, the lazy
  \<^verbatim>\<open>+?\<close>, named groups and the anchors \<^verbatim>\<open>^\<close> and \<^verbatim>\<open>$\<close> (no flag but \<^verbatim>\<open>g\<close>).
  \<open>Rep True r\<close> is \<^verbatim>\<open>r*\<close> and \<open>Rep False r\<close> is \<^verbatim>\<open>r*?\<close>. The module reads only the
  whole match and the named groups, so unnamed parentheses are plain grouping.
\<close>

datatype regex =
    Lit string
  | NoneOf "char list"
  | AnyChar
  | Cat regex regex
  | Alt regex regex
  | Rep bool regex
  | Opt regex
  | Grp string regex
  | Bol
  | Eol

definition Plus :: "regex \<Rightarrow> regex" where
  "Plus r = Cat r (Rep True r)"

definition PlusLazy :: "regex \<Rightarrow> regex" where
  "PlusLazy r = Cat r (Rep False r)"

text \<open>The named groups captured so far, most recent first.\<close>

type_synonym captures = "(string \<times> string) list"

text \<open>
  The line terminators that the dot does not match, and the code units of \<^verbatim>\<open>\s\<close>
  (white space and line terminators), both within the range 0..255.
\<close>

definition line_terminators :: "char list" where
  "line_terminators = [CHR 0x0A, CHR 0x0D]"

definition whitespace :: "char list" where
  "whitespace = [CHR 0x09, CHR 0x0A, CHR 0x0B, CHR 0x0C, CHR 0x0D, CHR 0x20, CHR 0xA0]"

text \<open>A quantifier gives up an iteration that consumed nothing.\<close>

definition progress :: "string \<Rightarrow> (string \<times> captures) list \<Rightarrow> (string \<times> captures) list" where
  "progress s rs = filter (\<lambda>(s', c'). length s' < length s) rs"

text \<open>
  Backtracking matching as a list of successes: \<open>rmatch n r s c\<close> lists, in the order in
  which a backtracking matcher tries them, the ways in which \<open>r\<close> matches a prefix of the
  rest \<open>s\<close> of an input of length \<open>n\<close>, each as the rest after the match and the
  captures. The first way for which the rest of the pattern succeeds is the match.
\<close>

function rmatch :: "nat \<Rightarrow> regex \<Rightarrow> string \<Rightarrow> captures \<Rightarrow> (string \<times> captures) list" where
  "rmatch n (Lit l) s c = (if prefix l s then [(drop (length l) s, c)] else [])"
| "rmatch n (NoneOf cs) s c =
     (case s of [] \<Rightarrow> [] | x # xs \<Rightarrow> if x \<in> set cs then [] else [(xs, c)])"
| "rmatch n AnyChar s c =
     (case s of [] \<Rightarrow> [] | x # xs \<Rightarrow> if x \<in> set line_terminators then [] else [(xs, c)])"
| "rmatch n (Cat r1 r2) s c =
     concat (map (\<lambda>(s', c'). rmatch n r2 s' c') (rmatch n r1 s c))"
| "rmatch n (Alt r1 r2) s c = rmatch n r1 s c @ rmatch n r2 s c"
| "rmatch n (Rep greedy r) s c =
     (let more = concat (map (\<lambda>(s', c'). rmatch n (Rep greedy r) s' c')
                          (progress s (rmatch n r s c)))
      in if greedy then more @ [(s, c)] else (s, c) # more)"
| "rmatch n (Opt r) s c = progress s (rmatch n r s c) @ [(s, c)]"
| "rmatch n (Grp name r) s c =
     map (\<lambda>(s', c'). (s', (name, take (length s - length s') s) # c')) (rmatch n r s c)"
| "rmatch n Bol s c = (if length s = n then [(s, c)] else [])"
| "rmatch n Eol s c = (if s = [] then [(s, c)] else [])"
  by pat_completeness auto
termination
  by (relation "measures [\<lambda>(n, r, s, c). size r, \<lambda>(n, r, s, c). length s]")
     (auto simp: progress_def)

declare rmatch.simps(6) [simp del]

text \<open>
  The result of \<^verbatim>\<open>RegExp.prototype.exec\<close> for a pattern without the \<^verbatim>\<open>g\<close> flag: the
  match at the leftmost index at which the pattern matches.
\<close>

record regex_match =
  index :: nat
  matched :: string
  groups :: captures

fun exec_scan :: "nat \<Rightarrow> regex \<Rightarrow> string \<Rightarrow> regex_match option" where
  "exec_scan n r [] =
     (case rmatch n r [] [] of
        (rest, c) # _ \<Rightarrow> Some \<lparr>index = n, matched = [], groups = c\<rparr>
      | [] \<Rightarrow> None)"
| "exec_scan n r (x # s) =
     (case rmatch n r (x # s) [] of
        (rest, c) # _ \<Rightarrow>
          Some \<lparr>index = n - length (x # s),
                matched = take (length (x # s) - length rest) (x # s), groups = c\<rparr>
      | [] \<Rightarrow> exec_scan n r s)"

definition regex_exec :: "regex \<Rightarrow> string \<Rightarrow> regex_match option" where
  "regex_exec r input = exec_scan (length input) r input"

text \<open>\<^verbatim>\<open>r.exec(input)?.groups ?? {}\<close>: the named groups of the match, none when there
  is no match; a group that did not take part in the match is \<^verbatim>\<open>undefined\<close>.\<close>

definition exec_groups :: "regex \<Rightarrow> string \<Rightarrow> string \<Rightarrow> string option" where
  "exec_groups r input =
     (case regex_exec r input of None \<Rightarrow> Map.empty | Some m \<Rightarrow> map_of (groups m))"

text \<open>\<^verbatim>\<open>input.replace(r, replacement)\<close> for a pattern without the \<^verbatim>\<open>g\<close> flag and a
  replacement without \<^verbatim>\<open>$\<close> patterns: the first match is replaced.\<close>

definition str_replace :: "string \<Rightarrow> regex \<Rightarrow> string \<Rightarrow> string" where
  "str_replace input r replacement =
     (case regex_exec r input of
        None \<Rightarrow> input
      | Some m \<Rightarrow>
          take (index m) input @ replacement @ drop (index m + length (matched m)) input)"

text \<open>\<^verbatim>\<open>input.replaceAll(r, replacement)\<close> for a pattern with the \<^verbatim>\<open>g\<close> flag: every
  match from left to right is replaced; after an empty match the scan moves on by one
  code unit.\<close>

function replaceAll_scan :: "nat \<Rightarrow> regex \<Rightarrow> string \<Rightarrow> string \<Rightarrow> string" where
  "replaceAll_scan n r replacement s =
     (case rmatch n r s [] of
        (rest, c) # _ \<Rightarrow>
          if length rest < length s then replacement @ replaceAll_scan n r replacement rest
          else (case s of
                  [] \<Rightarrow> replacement
                | x # s' \<Rightarrow> replacement @ x # replaceAll_scan n r replacement s')
      | [] \<Rightarrow> (case s of [] \<Rightarrow> [] | x # s' \<Rightarrow> x # replaceAll_scan n r replacement s'))"
  by pat_completeness auto
termination
  by (relation "measure (\<lambda>(n, r, replacement, s). length s)") auto

declare replaceAll_scan.simps [simp del]

definition str_replaceAll :: "string \<Rightarrow> regex \<Rightarrow> string \<Rightarrow> string" where
  "str_replaceAll input r replacement = replaceAll_scan (length input) r replacement input"

section \<open>The regular expressions of the module\<close>

text \<open>\<^verbatim>\<open>windows_directory_slash_regex = /\\+/g\<close>; the backslash is the code unit 0x5C.\<close>

definition windows_directory_slash_regex :: regex where
  "windows_directory_slash_regex = Plus (Lit [CHR 0x5C])"

text \<open>\<^verbatim>\<open>leading_slashes_regex = /^\/+/\<close>\<close>

definition leading_slashes_regex :: regex where
  "leading_slashes_regex = Cat Bol (Plus (Lit ''/''))"

text \<open>\<^verbatim>\<open>filename_regex = /\/?[^\/]+$/\<close>\<close>

definition filename_regex :: regex where
  "filename_regex = Cat (Opt (Lit ''/'')) (Cat (Plus (NoneOf ''/'')) Eol)"

text \<open>\<^verbatim>\<open>basename_and_extname_regex = /^(?<basename>.+?)(?<ext>\.[^\.]+)?$/\<close>\<close>

definition basename_and_extname_regex :: regex where
  "basename_and_extname_regex =
     Cat Bol
    (Cat (Grp ''basename'' (PlusLazy AnyChar))
    (Cat (Opt (Grp ''ext'' (Cat (Lit ''.'') (Plus (NoneOf ''.'')))))
         Eol))"

text \<open>
  \<^verbatim>\<open>package_regex = /^(?<protocol>npm:|jsr:)(\/*(@(?<scope>[^\/\s]+)\/)?(?<pkg>[^@\/\s]+)(@(?<version>[^\/\s]+))?)?(?<pathname>\/.*)?$/\<close>
\<close>

definition package_regex :: regex where
  "package_regex =
     Cat Bol
    (Cat (Grp ''protocol'' (Alt (Lit ''npm:'') (Lit ''jsr:'')))
    (Cat (Opt
           (Cat (Rep True (Lit ''/''))
           (Cat (Opt (Cat (Lit ''@'')
                     (Cat (Grp ''scope'' (Plus (NoneOf (CHR ''/'' # whitespace))))
                          (Lit ''/''))))
           (Cat (Grp ''pkg'' (Plus (NoneOf (CHR ''@'' # CHR ''/'' # whitespace))))
                (Opt (Cat (Lit ''@'')
                          (Grp ''version'' (Plus (NoneOf (CHR ''/'' # whitespace))))))))))
    (Cat (Opt (Grp ''pathname'' (Cat (Lit ''/'') (Rep True AnyChar))))
         Eol)))"

section \<open>Path helpers\<close>

definition pathToUnixPath :: "string \<Rightarrow> string" where
  "pathToUnixPath path = str_replaceAll path windows_directory_slash_regex sep"

definition normalizePath :: "string \<Rightarrow> string" where
  "normalizePath path = normalizeUnixPath (pathToUnixPath path)"

definition trimStartSlashes :: "string \<Rightarrow> string" where
  "trimStartSlashes str = str_replace str leading_slashes_regex []"

section \<open>Common directory prefix\<close>

text \<open>
  Modelled from the spec: \<^verbatim>\<open>commonPrefix\<close> of \<^verbatim>\<open>stringman.js\<close> is not among the
  sources. The specification calls its result the longest common character-prefix of all
  paths; for no path at all the model takes the empty string.
\<close>

fun commonPrefix :: "string list \<Rightarrow> string" where
  "commonPrefix [] = []"
| "commonPrefix [x] = x"
| "commonPrefix (x # y # ys) = longest_common_prefix x (commonPrefix (y # ys))"

text \<open>\<^verbatim>\<open>String.prototype.lastIndexOf\<close> for one code unit: \<open>- 1\<close> when it does not occur.\<close>

definition lastIndexOf :: "string \<Rightarrow> char \<Rightarrow> int" where
  "lastIndexOf s c =
     (if c \<in> set s then int (length s) - 1 - int (length (takeWhile (\<lambda>x. x \<noteq> c) (rev s)))
      else - 1)"

text \<open>The \<^verbatim>\<open>for (const path of paths)\<close> loop of \<^verbatim>\<open>commonNormalizedUnixPath\<close>.\<close>

fun commonNormalizedUnixPath_loop :: "string \<Rightarrow> nat \<Rightarrow> string list \<Rightarrow> string" where
  "commonNormalizedUnixPath_loop common_prefix common_prefix_length [] = common_prefix"
| "commonNormalizedUnixPath_loop common_prefix common_prefix_length (path # paths) =
     (let remaining_substring = drop common_prefix_length path
      in if \<not> prefix sep remaining_substring then
           (let common_dir_prefix_length = lastIndexOf common_prefix (CHR ''/'') + 1;
                common_dir_prefix = take (nat common_dir_prefix_length) common_prefix
            in common_dir_prefix)
         else commonNormalizedUnixPath_loop common_prefix common_prefix_length paths)"

definition commonNormalizedUnixPath :: "string list \<Rightarrow> string" where
  "commonNormalizedUnixPath paths =
     (let common_prefix = commonPrefix paths;
          common_prefix_length = length common_prefix
      in commonNormalizedUnixPath_loop common_prefix common_prefix_length paths)"

definition commonPath :: "string list \<Rightarrow> string" where
  "commonPath paths = commonNormalizedUnixPath (map normalizePath paths)"

section \<open>File path information\<close>

definition parseNormalizedUnixFilename :: "string \<Rightarrow> string" where
  "parseNormalizedUnixFilename file_path =
     trimStartSlashes (case regex_exec filename_regex file_path of
                         None \<Rightarrow> []
                       | Some m \<Rightarrow> matched m)"

text \<open>The destructuring default \<^verbatim>\<open>""\<close> stands in for a group that is \<^verbatim>\<open>undefined\<close>.\<close>

definition parseBasenameAndExtname_FromFilename :: "string \<Rightarrow> string \<times> string" where
  "parseBasenameAndExtname_FromFilename filename =
     (let named = exec_groups basename_and_extname_regex filename;
          basename = (case named ''basename'' of None \<Rightarrow> [] | Some b \<Rightarrow> b);
          ext = (case named ''ext'' of None \<Rightarrow> [] | Some e \<Rightarrow> e)
      in (basename, ext))"

record FilepathInfo =
  path :: string
  dirpath :: string
  dirname :: string
  filename :: string
  basename :: string
  extname :: string

text \<open>\<^verbatim>\<open>s.slice(0, - k)\<close> for \<open>k > 0\<close> keeps all but the last \<open>k\<close> code units.\<close>

definition slice_to_neg :: "string \<Rightarrow> nat \<Rightarrow> string" where
  "slice_to_neg s k = take (length s - k) s"

definition parseFilepathInfo :: "string \<Rightarrow> FilepathInfo" where
  "parseFilepathInfo file_path =
     (let path = normalizePath file_path;
          filename = parseNormalizedUnixFilename path;
          filename_length = length filename;
          dirpath = (if filename_length > 0 then slice_to_neg path filename_length else path);
          dirname = parseNormalizedUnixFilename (slice_to_neg dirpath 1);
          (basename, extname) = parseBasenameAndExtname_FromFilename filename
      in \<lparr>path = path, dirpath = dirpath, dirname = dirname, filename = filename,
          basename = basename, extname = extname\<rparr>)"

section \<open>Auxiliary notions for reasoning about matches\<close>

text \<open>The rests that a greedy repetition of a one-code-unit pattern offers, longest
  consumption first.\<close>

fun suffixes_while :: "(char \<Rightarrow> bool) \<Rightarrow> string \<Rightarrow> string list" where
  "suffixes_while P [] = [[]]"
| "suffixes_while P (x # xs) = (if P x then suffixes_while P xs @ [x # xs] else [x # xs])"

text \<open>A pattern that matches exactly one code unit, those that satisfy \<open>P\<close>.\<close>

definition single :: "regex \<Rightarrow> (char \<Rightarrow> bool) \<Rightarrow> bool" where
  "single r P \<longleftrightarrow>
     (\<forall>n s c. rmatch n r s c = (case s of [] \<Rightarrow> [] | x # xs \<Rightarrow> if P x then [(xs, c)] else []))"

text \<open>The code units after the last slash of a string, and the part up to and including
  that slash.\<close>

definition last_segment :: "string \<Rightarrow> string" where
  "last_segment s = rev (takeWhile (\<lambda>x. x \<noteq> CHR ''/'') (rev s))"

definition dir_part :: "string \<Rightarrow> string" where
  "dir_part s = rev (dropWhile (\<lambda>x. x \<noteq> CHR ''/'') (rev s))"

text \<open>Feeding every way of matching to the rest of the pattern, in order.\<close>

definition continue_with :: "(string \<times> captures) list \<Rightarrow> (string \<Rightarrow> captures \<Rightarrow> 'a list) \<Rightarrow> 'a list" where
  "continue_with rs K = concat (map (\<lambda>(s', c'). K s' c') rs)"

section \<open>The URL class of the host platform\<close>

text \<open>
  \<^verbatim>\<open>URL\<close> is a class of the platform, not of the module. The model takes it as a
  parameter: \<open>url_new input base\<close> is \<^verbatim>\<open>new URL(input, base)\<close> (a base that is a
  \<^verbatim>\<open>URL\<close> object is passed as its \<^verbatim>\<open>href\<close>, which is how the constructor reads it),
  and the other fields are the getters that the module reads.

  The constructor returns a URL (\<open>Parsed\<close>) or throws its \<^verbatim>\<open>TypeError\<close> (\<open>Failure\<close>). The
  third outcome, \<open>Unmodelled\<close>, is for a model of the constructor that covers only a part
  of its input: on the rest the model says neither that the constructor returns nor
  that it throws.
\<close>

datatype 'u url_outcome = Parsed 'u | Failure | Unmodelled

record 'u url_api =
  url_new :: "string \<Rightarrow> string option \<Rightarrow> 'u url_outcome"
  url_href :: "'u \<Rightarrow> string"
  url_protocol :: "'u \<Rightarrow> string"
  url_pathname :: "'u \<Rightarrow> string"

text \<open>The union type \<^verbatim>\<open>string | URL\<close>.\<close>

datatype 'u string_or_URL = Str string | URLobj 'u

text \<open>
  The errors that the module raises. The message of an \<^verbatim>\<open>Error\<close> depends on the flag
  \<^verbatim>\<open>DEBUG.ERROR\<close>; the model keeps what the message would quote. \<open>URL_Unmodelled\<close> is
  not an error of the module: it is the value of a call that reaches the URL
  constructor on input that the model of the constructor does not cover.
\<close>

datatype error =
    InvalidPackageUrl string
  | UnsupportedBaseScheme UriScheme
  | URL_TypeError
  | URL_Unmodelled

section \<open>parsePackageUrl\<close>

record PackagePseudoUrl =
  href :: string
  protocol :: string
  scope :: "string option"
  pkg :: string
  version :: "string option"
  pathname :: string
  host :: string

text \<open>\<^verbatim>\<open>x ? x : undefined\<close> for a string or \<^verbatim>\<open>undefined\<close>: the empty string is falsy.\<close>

definition nonempty_or_undefined :: "string option \<Rightarrow> string option" where
  "nonempty_or_undefined x = (case x of None \<Rightarrow> None | Some s \<Rightarrow> if s = [] then None else Some s)"

definition parsePackageUrl :: "'u url_api \<Rightarrow> 'u string_or_URL \<Rightarrow> error + PackagePseudoUrl" where
  "parsePackageUrl api url_href_arg =
     (let url_href_str = (case url_href_arg of Str s \<Rightarrow> s | URLobj u \<Rightarrow> url_href api u);
          named = exec_groups package_regex url_href_str
      in case (named ''protocol'', named ''pkg'') of
           (Some protocol_str, Some pkg_str) \<Rightarrow>
             (let scope_opt = nonempty_or_undefined (named ''scope'');
                  version_opt = nonempty_or_undefined (named ''version'');
                  pathname_str = (case nonempty_or_undefined (named ''pathname'') of
                                    None \<Rightarrow> sep
                                  | Some s \<Rightarrow> s);
                  host_str = (case scope_opt of None \<Rightarrow> [] | Some s \<Rightarrow> ''@'' @ s @ sep)
                             @ pkg_str
                             @ (case version_opt of None \<Rightarrow> [] | Some v \<Rightarrow> ''@'' @ v)
              in Inr \<lparr>href = protocol_str @ ''/'' @ host_str @ pathname_str,
                      protocol = protocol_str, scope = scope_opt, pkg = pkg_str,
                      version = version_opt, pathname = pathname_str, host = host_str\<rparr>)
         | _ \<Rightarrow> Inl (InvalidPackageUrl url_href_str))"

subsection \<open>The shape of a package specifier\<close>

text \<open>
  The parts of a specifier after its protocol: the number of slashes, the scope, the
  package name, the version and what follows the first slash of the path.
\<close>

record pkg_parts =
  p_slashes :: nat
  p_scope :: "string option"
  p_pkg :: string
  p_version :: "string option"
  p_path :: "string option"

definition parts_tail :: "pkg_parts \<Rightarrow> string" where
  "parts_tail q =
     replicate (p_slashes q) (CHR ''/'')
     @ (case p_scope q of None \<Rightarrow> [] | Some s \<Rightarrow> CHR ''@'' # s @ ''/'')
     @ p_pkg q
     @ (case p_version q of None \<Rightarrow> [] | Some v \<Rightarrow> CHR ''@'' # v)
     @ (case p_path q of None \<Rightarrow> [] | Some r \<Rightarrow> CHR ''/'' # r)"

definition parts_ok :: "pkg_parts \<Rightarrow> bool" where
  "parts_ok q \<longleftrightarrow>
     (case p_scope q of None \<Rightarrow> True
      | Some s \<Rightarrow> s \<noteq> [] \<and> list_all (\<lambda>x. x \<notin> set (CHR ''/'' # whitespace)) s) \<and>
     p_pkg q \<noteq> [] \<and> list_all (\<lambda>x. x \<notin> set (CHR ''@'' # CHR ''/'' # whitespace)) (p_pkg q) \<and>
     (case p_version q of None \<Rightarrow> True
      | Some v \<Rightarrow> v \<noteq> [] \<and> list_all (\<lambda>x. x \<notin> set (CHR ''/'' # whitespace)) v) \<and>
     (case p_path q of None \<Rightarrow> True
      | Some r \<Rightarrow> list_all (\<lambda>x. x \<notin> set line_terminators) r)"

definition parts_caps :: "string \<Rightarrow> pkg_parts \<Rightarrow> captures" where
  "parts_caps proto q =
     (case p_path q of None \<Rightarrow> [] | Some r \<Rightarrow> [(''pathname'', CHR ''/'' # r)])
     @ (case p_version q of None \<Rightarrow> [] | Some v \<Rightarrow> [(''version'', v)])
     @ [(''pkg'', p_pkg q)]
     @ (case p_scope q of None \<Rightarrow> [] | Some s \<Rightarrow> [(''scope'', s)])
     @ [(''protocol'', proto)]"

text \<open>A list of matches whose first element is \<open>x\<close>.\<close>

definition starts :: "'a list \<Rightarrow> 'a \<Rightarrow> bool" where
  "starts xs x \<longleftrightarrow> (\<exists>rest. xs = x # rest)"

text \<open>The record that \<^const>\<open>parsePackageUrl\<close> builds from the parts of a specifier.\<close>

definition parts_host :: "pkg_parts \<Rightarrow> string" where
  "parts_host q =
     (case p_scope q of None \<Rightarrow> [] | Some s \<Rightarrow> ''@'' @ s @ ''/'')
     @ p_pkg q
     @ (case p_version q of None \<Rightarrow> [] | Some v \<Rightarrow> ''@'' @ v)"

definition parts_pathname :: "pkg_parts \<Rightarrow> string" where
  "parts_pathname q = (case p_path q of None \<Rightarrow> ''/'' | Some r \<Rightarrow> CHR ''/'' # r)"

definition parts_result :: "string \<Rightarrow> pkg_parts \<Rightarrow> PackagePseudoUrl" where
  "parts_result proto q =
     \<lparr>href = proto @ ''/'' @ parts_host q @ parts_pathname q,
      protocol = proto, scope = p_scope q, pkg = p_pkg q, version = p_version q,
      pathname = parts_pathname q, host = parts_host q\<rparr>"

section \<open>resolveAsUrl\<close>

text \<open>\<^verbatim>\<open>new URL(input, base)\<close>, with the \<^verbatim>\<open>TypeError\<close> of the constructor as an error value.\<close>

definition new_URL :: "'u url_api \<Rightarrow> string \<Rightarrow> string option \<Rightarrow> error + 'u" where
  "new_URL api input base =
     (case url_new api input base of
        Parsed u \<Rightarrow> Inr u
      | Failure \<Rightarrow> Inl URL_TypeError
      | Unmodelled \<Rightarrow> Inl URL_Unmodelled)"

text \<open>
  \<^verbatim>\<open>base_url\<close> is \<^verbatim>\<open>undefined\<close>, the given \<^verbatim>\<open>URL\<close>, or the result of the recursive call
  on a string base, which is made without a base. The branch for a base protocol
  \<open>jsr:\<close> or \<open>npm:\<close> is entered only with a base, so \<^verbatim>\<open>base_url!\<close> is defined there.
\<close>

fun resolveAsUrl :: "'u url_api \<Rightarrow> string \<Rightarrow> 'u string_or_URL option \<Rightarrow> error + 'u" where
  "resolveAsUrl api path_arg base =
     (let path_str = pathToUnixPath path_arg;
          base_url_result =
            (case base of
               None \<Rightarrow> Inr None
             | Some (URLobj u) \<Rightarrow> Inr (Some u)
             | Some (Str b) \<Rightarrow>
                 (let base_scheme = getUriScheme b
                  in if base_scheme = Data \<or> base_scheme = Relative
                     then Inl (UnsupportedBaseScheme base_scheme)
                     else (case resolveAsUrl api b None of
                             Inl e \<Rightarrow> Inl e
                           | Inr u \<Rightarrow> Inr (Some u))))
      in case base_url_result of
           Inl e \<Rightarrow> Inl e
         | Inr base_url \<Rightarrow>
             (let path_scheme = getUriScheme path_str
              in if path_scheme = Local then new_URL api (''file://'' @ path_str) None
                 else if path_scheme = Jsr \<or> path_scheme = Npm then
                   (case parsePackageUrl api (Str path_str) of
                      Inl e \<Rightarrow> Inl e
                    | Inr p \<Rightarrow> new_URL api (href p) None)
                 else if path_scheme = Relative then
                   (let base_protocol = map_option (url_protocol api) base_url;
                        base_is_jsr_or_npm =
                          (base_protocol = Some ''jsr:'' \<or> base_protocol = Some ''npm:'')
                    in if \<not> base_is_jsr_or_npm
                       then new_URL api path_str (map_option (url_href api) base_url)
                       else (case base_url of
                               None \<Rightarrow> Inl URL_TypeError
                             | Some bu \<Rightarrow>
                                 (case parsePackageUrl api (URLobj bu) of
                                    Inl e \<Rightarrow> Inl e
                                  | Inr p \<Rightarrow>
                                      (case new_URL api path_str (Some (''x:'' @ pathname p)) of
                                         Inl e \<Rightarrow> Inl e
                                       | Inr joined \<Rightarrow>
                                           new_URL api
                                             (protocol p @ ''/'' @ host p
                                                @ url_pathname api joined)
                                             None))))
                 else new_URL api path_str None))"

declare resolveAsUrl.simps [simp del]

text \<open>The dispatch of \<^const>\<open>resolveAsUrl\<close> on the scheme of the path, once the base is
  resolved; the lemmas below relate it to \<^const>\<open>resolveAsUrl\<close>.\<close>

definition dispatch :: "'u url_api \<Rightarrow> string \<Rightarrow> 'u option \<Rightarrow> error + 'u" where
  "dispatch api path_str base_url =
     (let path_scheme = getUriScheme path_str
      in if path_scheme = Local then new_URL api (''file://'' @ path_str) None
         else if path_scheme = Jsr \<or> path_scheme = Npm then
           (case parsePackageUrl api (Str path_str) of
              Inl e \<Rightarrow> Inl e
            | Inr p \<Rightarrow> new_URL api (href p) None)
         else if path_scheme = Relative then
           (let base_protocol = map_option (url_protocol api) base_url;
                base_is_jsr_or_npm =
                  (base_protocol = Some ''jsr:'' \<or> base_protocol = Some ''npm:'')
            in if \<not> base_is_jsr_or_npm
               then new_URL api path_str (map_option (url_href api) base_url)
               else (case base_url of
                       None \<Rightarrow> Inl URL_TypeError
                     | Some bu \<Rightarrow>
                         (case parsePackageUrl api (URLobj bu) of
                            Inl e \<Rightarrow> Inl e
                          | Inr p \<Rightarrow>
                              (case new_URL api path_str (Some (''x:'' @ pathname p)) of
                                 Inl e \<Rightarrow> Inl e
                               | Inr joined \<Rightarrow>
                                   new_URL api
                                     (protocol p @ ''/'' @ host p
                                        @ url_pathname api joined)
                                     None))))
         else new_URL api path_str None)"

section \<open>A reference URL constructor\<close>

text \<open>
  The part of the URL parser of the URL Standard that the examples of the module need:
  URLs of a scheme that is not special whose scheme is followed by a single slash (a
  path, no authority), and relative references against such a URL. A URL record holds
  the scheme, the path segments, the query and the fragment. Input outside this part
  (special schemes, authorities, opaque paths) is marked as not modelled: there the
  platform returns a URL or throws, and the model does not say which.
\<close>

record url_record =
  u_scheme :: string
  u_path :: "string list"
  u_query :: "string option"
  u_fragment :: "string option"

definition ascii_alpha :: "char \<Rightarrow> bool" where
  "ascii_alpha c \<longleftrightarrow>
     (let n = of_char c :: nat in (65 \<le> n \<and> n \<le> 90) \<or> (97 \<le> n \<and> n \<le> 122))"

definition ascii_digit :: "char \<Rightarrow> bool" where
  "ascii_digit c \<longleftrightarrow> (let n = of_char c :: nat in 48 \<le> n \<and> n \<le> 57)"

definition ascii_lower :: "char \<Rightarrow> char" where
  "ascii_lower c =
     (let n = of_char c :: nat in if 65 \<le> n \<and> n \<le> 90 then char_of (n + 32) else c)"

definition scheme_char :: "char \<Rightarrow> bool" where
  "scheme_char c \<longleftrightarrow> ascii_alpha c \<or> ascii_digit c \<or> c \<in> set ''+-.''"

definition c0_control_or_space :: "char \<Rightarrow> bool" where
  "c0_control_or_space c \<longleftrightarrow> (of_char c :: nat) \<le> 32"

definition ascii_tab_or_newline :: "char \<Rightarrow> bool" where
  "ascii_tab_or_newline c \<longleftrightarrow> c \<in> set [CHR 0x09, CHR 0x0A, CHR 0x0D]"

text \<open>Percent-encoding of the UTF-8 bytes of a code unit below 256.\<close>

definition hex_digit :: "nat \<Rightarrow> char" where
  "hex_digit k = ''0123456789ABCDEF'' ! (k mod 16)"

definition percent_byte :: "nat \<Rightarrow> string" where
  "percent_byte b = [CHR ''%'', hex_digit (b div 16), hex_digit (b mod 16)]"

definition utf8_percent_encode :: "char \<Rightarrow> string" where
  "utf8_percent_encode c =
     (let n = of_char c :: nat
      in if n < 128 then percent_byte n
         else percent_byte (192 + n div 64) @ percent_byte (128 + n mod 64))"

definition c0_control_set :: "char \<Rightarrow> bool" where
  "c0_control_set c \<longleftrightarrow> (let n = of_char c :: nat in n < 32 \<or> n > 126)"

definition fragment_set :: "char \<Rightarrow> bool" where
  "fragment_set c \<longleftrightarrow>
     c0_control_set c \<or> c \<in> set [CHR 0x20, CHR 0x22, CHR ''<'', CHR ''>'', CHR 0x60]"

definition query_set :: "char \<Rightarrow> bool" where
  "query_set c \<longleftrightarrow>
     c0_control_set c \<or> c \<in> set [CHR 0x20, CHR 0x22, CHR ''#'', CHR ''<'', CHR ''>'']"

definition path_set :: "char \<Rightarrow> bool" where
  "path_set c \<longleftrightarrow>
     query_set c \<or> c \<in> set [CHR ''?'', CHR 0x5E, CHR 0x60, CHR 0x7B, CHR 0x7D]"

definition encode_with :: "(char \<Rightarrow> bool) \<Rightarrow> char \<Rightarrow> string" where
  "encode_with encode_set c = (if encode_set c then utf8_percent_encode c else [c])"

text \<open>Scheme start state and scheme state: a letter, then letters, digits, \<open>+\<close>, \<open>-\<close>, \<open>.\<close>
  up to a colon; anything else means that the input has no scheme.\<close>

fun scheme_state :: "string \<Rightarrow> string \<Rightarrow> (string \<times> string) option" where
  "scheme_state buffer [] = None"
| "scheme_state buffer (c # cs) =
     (if scheme_char c then scheme_state (buffer @ [ascii_lower c]) cs
      else if c = CHR '':'' then Some (buffer, cs)
      else None)"

definition scheme_start_state :: "string \<Rightarrow> (string \<times> string) option" where
  "scheme_start_state s =
     (case s of
        [] \<Rightarrow> None
      | c # cs \<Rightarrow> if ascii_alpha c then scheme_state [ascii_lower c] cs else None)"

definition special_schemes :: "string list" where
  "special_schemes = [''ftp'', ''file'', ''http'', ''https'', ''ws'', ''wss'']"

definition single_dot_segment :: "string \<Rightarrow> bool" where
  "single_dot_segment b \<longleftrightarrow> map ascii_lower b \<in> set [''.'', ''%2e'']"

definition double_dot_segment :: "string \<Rightarrow> bool" where
  "double_dot_segment b \<longleftrightarrow> map ascii_lower b \<in> set [''..'', ''.%2e'', ''%2e.'', ''%2e%2e'']"

text \<open>The end of a path segment in the path state; \<open>slash\<close> tells whether a slash ended it.
  Shortening the path of a URL that is not a file URL removes its last segment, if any.\<close>

definition end_segment :: "string list \<Rightarrow> string \<Rightarrow> bool \<Rightarrow> string list" where
  "end_segment segs buffer slash =
     (if double_dot_segment buffer then
        (if slash then butlast segs else butlast segs @ [[]])
      else if single_dot_segment buffer then
        (if slash then segs else segs @ [[]])
      else segs @ [buffer])"

definition fragment_state :: "string \<Rightarrow> string" where
  "fragment_state s = concat (map (encode_with fragment_set) s)"

fun query_state :: "string \<Rightarrow> string \<Rightarrow> string \<times> string option" where
  "query_state buffer [] = (buffer, None)"
| "query_state buffer (c # cs) =
     (if c = CHR ''#'' then (buffer, Some (fragment_state cs))
      else query_state (buffer @ encode_with query_set c) cs)"

fun path_state :: "string list \<Rightarrow> string \<Rightarrow> string \<Rightarrow> string list \<times> string option \<times> string option" where
  "path_state segs buffer [] = (end_segment segs buffer False, None, None)"
| "path_state segs buffer (c # cs) =
     (if c = CHR ''/'' then path_state (end_segment segs buffer True) [] cs
      else if c = CHR ''?'' then
        (let (q, f) = query_state [] cs in (end_segment segs buffer False, Some q, f))
      else if c = CHR ''#'' then
        (end_segment segs buffer False, None, Some (fragment_state cs))
      else path_state segs (buffer @ encode_with path_set c) cs)"

definition make_url :: "string \<Rightarrow> string list \<times> string option \<times> string option \<Rightarrow> url_record" where
  "make_url scheme parts =
     (case parts of (segs, q, f) \<Rightarrow>
        \<lparr>u_scheme = scheme, u_path = segs, u_query = q, u_fragment = f\<rparr>)"

text \<open>Relative state and relative slash state, for a base without authority.\<close>

definition relative_state :: "url_record \<Rightarrow> string \<Rightarrow> url_record url_outcome" where
  "relative_state b s =
     (case s of
        [] \<Rightarrow> Parsed (b\<lparr>u_fragment := None\<rparr>)
      | c # cs \<Rightarrow>
          if c = CHR ''/'' then
            (if prefix ''/'' cs then Unmodelled
             else Parsed (make_url (u_scheme b) (path_state [] [] cs)))
          else if c = CHR ''?'' then
            (let (q, f) = query_state [] cs
             in Parsed (make_url (u_scheme b) (u_path b, Some q, f)))
          else if c = CHR ''#'' then
            Parsed (make_url (u_scheme b) (u_path b, u_query b, Some (fragment_state cs)))
          else Parsed (make_url (u_scheme b) (path_state (butlast (u_path b)) [] s)))"

text \<open>The input is stripped of leading and trailing C0 controls and spaces, then of
  all tabs and newlines.\<close>

definition preprocess :: "string \<Rightarrow> string" where
  "preprocess s =
     filter (\<lambda>c. \<not> ascii_tab_or_newline c)
       (rev (dropWhile c0_control_or_space (rev (dropWhile c0_control_or_space s))))"

definition basic_url_parse :: "string \<Rightarrow> url_record option \<Rightarrow> url_record url_outcome" where
  "basic_url_parse input base =
     (let s = preprocess input
      in case scheme_start_state s of
           Some (scheme, rest) \<Rightarrow>
             if scheme \<in> set special_schemes then Unmodelled
             else (case rest of
                     [] \<Rightarrow> Unmodelled
                   | c # cs \<Rightarrow>
                       if c = CHR ''/'' then
                         (if prefix ''/'' cs then Unmodelled
                          else Parsed (make_url scheme (path_state [] [] cs)))
                       else Unmodelled)
         | None \<Rightarrow>
             (case base of
                None \<Rightarrow> Failure
              | Some b \<Rightarrow> if u_scheme b = ''file'' then Unmodelled else relative_state b s))"

text \<open>The constructor parses the base first, without a base, and fails when that fails.\<close>

definition URL_constructor :: "string \<Rightarrow> string option \<Rightarrow> url_record url_outcome" where
  "URL_constructor input base =
     (case base of
        None \<Rightarrow> basic_url_parse input None
      | Some b \<Rightarrow>
          (case basic_url_parse b None of
             Parsed bu \<Rightarrow> basic_url_parse input (Some bu)
           | Failure \<Rightarrow> Failure
           | Unmodelled \<Rightarrow> Unmodelled))"

text \<open>The getters \<^verbatim>\<open>pathname\<close>, \<^verbatim>\<open>protocol\<close> and \<^verbatim>\<open>href\<close> (the URL serializer).\<close>

definition serialize_path :: "url_record \<Rightarrow> string" where
  "serialize_path u = concat (map (\<lambda>seg. CHR ''/'' # seg) (u_path u))"

definition serialize_protocol :: "url_record \<Rightarrow> string" where
  "serialize_protocol u = u_scheme u @ '':''"

definition serialize_url :: "url_record \<Rightarrow> string" where
  "serialize_url u =
     u_scheme u @ '':''
     @ (if length (u_path u) > 1 \<and> hd (u_path u) = [] then ''/.'' else [])
     @ serialize_path u
     @ (case u_query u of None \<Rightarrow> [] | Some q \<Rightarrow> CHR ''?'' # q)
     @ (case u_fragment u of None \<Rightarrow> [] | Some f \<Rightarrow> CHR ''#'' # f)"

text \<open>The reference constructor as an instance of the platform parameter. Input that
  it does not model stays \<open>Unmodelled\<close>, which \<^const>\<open>new_URL\<close> keeps apart from the
  \<^verbatim>\<open>TypeError\<close> of the constructor.\<close>

definition reference_url_api :: "url_record url_api" where
  "reference_url_api =
     \<lparr>url_new = URL_constructor,
      url_href = serialize_url,
      url_protocol = serialize_protocol,
      url_pathname = serialize_path\<rparr>"

section \<open>Properties of splitting and joining\<close>

lemma str_split_not_Nil: "str_split c s \<noteq> []"
  by (induction s) (auto split: list.splits)

lemma str_split_no_sep: "seg \<in> set (str_split c s) \<Longrightarrow> c \<notin> set seg"
  by (induction s arbitrary: seg) (auto split: if_splits list.splits)

lemma str_split_append_sep:
  "c \<notin> set x \<Longrightarrow> str_split c (x @ c # rest) = x # str_split c rest"
  by (induction x) auto

lemma str_split_no_sep_id: "c \<notin> set x \<Longrightarrow> str_split c x = [x]"
  by (induction x) auto

lemma str_split_join:
  "xs \<noteq> [] \<Longrightarrow> (\<And>x. x \<in> set xs \<Longrightarrow> c \<notin> set x) \<Longrightarrow> str_split c (str_join [c] xs) = xs"
proof (induction xs rule: induct_list012)
  case 1
  then show ?case by simp
next
  case (2 x)
  then show ?case by (simp add: str_split_no_sep_id)
next
  case (3 x y ys)
  then show ?case by (simp add: str_split_append_sep)
qed

section \<open>The shape of the output stack\<close>

lemma stack_shape_init: "stack_shape [''..'']"
  unfolding stack_shape_def by (rule exI[of _ 0], rule exI[of _ "[]"]) simp

lemma stack_shape_step:
  assumes "stack_shape out"
  shows "stack_shape (normalize_step out seg)"
proof -
  from assms obtain k rest where
    out: "out = replicate (Suc k) ''..'' @ rest" and
    nd: "''.'' \<notin> set rest" and ndd: "''..'' \<notin> set rest"
    unfolding stack_shape_def by blast
  show ?thesis
  proof (cases "seg = ''..''")
    case True
    show ?thesis
    proof (cases "rest = []")
      case True
      with out have "at_last out = Some ''..''"
        by (simp add: at_last_nonempty)
      with \<open>seg = ''..''\<close> have "normalize_step out seg = replicate (Suc (Suc k)) ''..'' @ []"
        using out True by (simp add: normalize_step_def array_push_def replicate_append_same)
      then show ?thesis unfolding stack_shape_def by fastforce
    next
      case False
      then have l: "last out = last rest" "out \<noteq> []" using out by simp_all
      from False ndd have "last rest \<noteq> ''..''" using last_in_set by metis
      with l have "at_last out \<noteq> Some ''..''"
        by (simp add: at_last_nonempty)
      with \<open>seg = ''..''\<close> have "normalize_step out seg = replicate (Suc k) ''..'' @ butlast rest"
        using out False by (simp add: normalize_step_def array_pop_def butlast_append)
      moreover have "''.'' \<notin> set (butlast rest)" "''..'' \<notin> set (butlast rest)"
        using nd ndd by (auto dest: in_set_butlastD)
      ultimately show ?thesis unfolding stack_shape_def by blast
    qed
  next
    case False
    show ?thesis
    proof (cases "seg = ''.''")
      case True
      then show ?thesis using assms by (simp add: normalize_step_def)
    next
      case notdot: False
      with False have "normalize_step out seg = replicate (Suc k) ''..'' @ (rest @ [seg])"
        using out by (simp add: normalize_step_def array_push_def)
      moreover have "''.'' \<notin> set (rest @ [seg])" "''..'' \<notin> set (rest @ [seg])"
        using nd ndd False notdot by auto
      ultimately show ?thesis unfolding stack_shape_def by blast
    qed
  qed
qed

lemma stack_shape_loop: "stack_shape out \<Longrightarrow> stack_shape (normalize_loop out segs)"
  by (induction segs arbitrary: out) (simp_all add: stack_shape_step)

lemma normalize_step_no_sep:
  "\<forall>x \<in> set out. c \<notin> set x \<Longrightarrow> c \<notin> set seg \<Longrightarrow> \<forall>x \<in> set (normalize_step out seg). c \<notin> set x"
  by (auto simp: normalize_step_def array_pop_def array_push_def dest: in_set_butlastD)

lemma normalize_loop_no_sep:
  "\<forall>x \<in> set out. c \<notin> set x \<Longrightarrow> \<forall>x \<in> set segs. c \<notin> set x \<Longrightarrow>
   \<forall>x \<in> set (normalize_loop out segs). c \<notin> set x"
proof (induction segs arbitrary: out)
  case Nil
  then show ?case by simp
next
  case (Cons seg segs)
  have seg: "c \<notin> set seg" and segs: "\<forall>x \<in> set segs. c \<notin> set x"
    using Cons.prems(2) by simp_all
  have "\<forall>x \<in> set (normalize_step out seg). c \<notin> set x"
    by (rule normalize_step_no_sep[OF Cons.prems(1) seg])
  from Cons.IH[OF this segs] show ?case by simp
qed

lemma normalize_loop_shape_id:
  "''.'' \<notin> set rest \<Longrightarrow> ''..'' \<notin> set rest \<Longrightarrow> stack_shape out \<Longrightarrow>
   normalize_loop out rest = out @ rest"
proof (induction rest arbitrary: out)
  case Nil
  then show ?case by simp
next
  case (Cons seg rest)
  have "seg \<noteq> ''.''" "seg \<noteq> ''..''"
    using Cons.prems(1,2) by auto
  then have step: "normalize_step out seg = out @ [seg]"
    by (simp add: normalize_step_def array_push_def)
  have "stack_shape (normalize_step out seg)"
    by (rule stack_shape_step[OF Cons.prems(3)])
  with Cons.IH[of "normalize_step out seg"] Cons.prems(1,2) step show ?case by simp
qed

lemma normalize_loop_dotdots:
  "normalize_loop (replicate (Suc j) ''..'') (replicate k ''..'') = replicate (Suc j + k) ''..''"
proof (induction k arbitrary: j)
  case 0
  then show ?case by simp
next
  case (Suc k)
  have "at_last (replicate (Suc j) ''..'') = Some ''..''"
    by (simp add: at_last_nonempty)
  then have "normalize_step (replicate (Suc j) ''..'') ''..'' = replicate (Suc (Suc j)) ''..''"
    by (simp add: normalize_step_def array_push_def replicate_append_same)
  with Suc.IH[of "Suc j"] show ?case by simp
qed

lemma normalize_loop_append:
  "normalize_loop out (xs @ ys) = normalize_loop (normalize_loop out xs) ys"
  by (induction xs arbitrary: out) simp_all

text \<open>Normalising the segments of an already normalised stack gives the stack back.\<close>

lemma normalize_loop_fixed:
  assumes "''.'' \<notin> set rest" and "''..'' \<notin> set rest"
  shows "normalize_loop [''..''] (replicate k ''..'' @ rest) = ''..'' # replicate k ''..'' @ rest"
proof -
  have a: "normalize_loop [''..''] (replicate k ''..'') = replicate (Suc k) ''..''"
    using normalize_loop_dotdots[of 0 k] by simp
  have "stack_shape (replicate (Suc k) ''..'')"
    unfolding stack_shape_def by (rule exI[of _ k], rule exI[of _ "[]"]) simp
  from normalize_loop_shape_id[OF assms this] a show ?thesis
    by (simp add: normalize_loop_append)
qed

lemma normalizeUnixPath_join: "normalizeUnixPath p = str_join ''/'' (output_segments_of p)"
  by (simp add: normalizeUnixPath_def output_segments_of_def sep_def)

lemma output_segments_shape:
  "\<exists>k rest. output_segments_of p = replicate k ''..'' @ rest \<and>
     ''.'' \<notin> set rest \<and> ''..'' \<notin> set rest"
proof -
  have "stack_shape (normalize_loop [''..''] (str_split (CHR ''/'') p))"
    by (rule stack_shape_loop[OF stack_shape_init])
  then obtain k rest where
    "normalize_loop [''..''] (str_split (CHR ''/'') p) = replicate (Suc k) ''..'' @ rest"
    "''.'' \<notin> set rest" "''..'' \<notin> set rest"
    unfolding stack_shape_def by blast
  then have "output_segments_of p = replicate k ''..'' @ rest \<and>
     ''.'' \<notin> set rest \<and> ''..'' \<notin> set rest"
    by (simp add: output_segments_of_def array_shift_def)
  then show ?thesis by blast
qed

lemma output_segments_no_sep: "x \<in> set (output_segments_of p) \<Longrightarrow> CHR ''/'' \<notin> set x"
proof -
  have "\<forall>x \<in> set (normalize_loop [''..''] (str_split (CHR ''/'') p)). CHR ''/'' \<notin> set x"
    by (rule normalize_loop_no_sep) (auto dest: str_split_no_sep)
  moreover have "set (array_shift ys) \<subseteq> set ys" for ys :: "string list"
    by (cases ys) (auto simp: array_shift_def)
  ultimately show "x \<in> set (output_segments_of p) \<Longrightarrow> CHR ''/'' \<notin> set x"
    unfolding output_segments_of_def by blast
qed

text \<open>Splitting the result of \<^const>\<open>normalizeUnixPath\<close> gives the joined segments back,
  except that no segment at all reads back as one empty segment.\<close>

lemma split_normalizeUnixPath:
  "str_split (CHR ''/'') (normalizeUnixPath p) =
     (if output_segments_of p = [] then [[]] else output_segments_of p)"
proof (cases "output_segments_of p = []")
  case True
  then show ?thesis by (simp add: normalizeUnixPath_join)
next
  case False
  then show ?thesis
    using str_split_join[of "output_segments_of p" "CHR ''/''"] output_segments_no_sep
    by (simp add: normalizeUnixPath_join)
qed

lemma normalizeUnixPath_idem: "normalizeUnixPath (normalizeUnixPath p) = normalizeUnixPath p"
proof -
  obtain k rest where shape: "output_segments_of p = replicate k ''..'' @ rest"
    "''.'' \<notin> set rest" "''..'' \<notin> set rest"
    using output_segments_shape by blast
  show ?thesis
  proof (cases "output_segments_of p = []")
    case True
    then have "normalizeUnixPath p = []" by (simp add: normalizeUnixPath_join)
    moreover have "normalizeUnixPath [] = []"
      by (simp add: normalizeUnixPath_def normalize_step_def array_push_def array_shift_def sep_def)
    ultimately show ?thesis by simp
  next
    case False
    then have "str_split (CHR ''/'') (normalizeUnixPath p) = replicate k ''..'' @ rest"
      using shape(1) by (simp add: split_normalizeUnixPath)
    then have "output_segments_of (normalizeUnixPath p) = replicate k ''..'' @ rest"
      using normalize_loop_fixed[OF shape(2,3), of k]
      by (simp add: output_segments_of_def array_shift_def)
    then show ?thesis using shape(1) by (simp add: normalizeUnixPath_join)
  qed
qed

lemma rev_normalize_loop: "rev (normalize_loop out segs) = spec_walk (rev out) segs"
proof (induction segs arbitrary: out)
  case Nil
  then show ?case by simp
next
  case (Cons seg segs)
  have "rev (normalize_step out seg) =
     (if seg = ''.'' then rev out
      else if seg = ''..'' then
        (case rev out of [] \<Rightarrow> [] | tp # below \<Rightarrow> if tp = ''..'' then seg # rev out else below)
      else seg # rev out)"
  proof (cases out rule: rev_cases)
    case Nil
    then show ?thesis
      by (simp add: normalize_step_def at_last_Nil array_pop_def array_push_def)
  next
    case (snoc ys y)
    then show ?thesis
      by (simp add: normalize_step_def at_last_nonempty array_pop_def array_push_def)
  qed
  then show ?case using Cons.IH[of "normalize_step out seg"]
    by (simp split: list.splits)
qed

section \<open>Claims about normalizeUnixPath\<close>

text \<open>
  C1. For every string \<open>p\<close>, \<open>normalizeUnixPath p\<close> is the result of the sentinel-stack
  algorithm of the specification: split on the slash, seed the stack with the sentinel
  \<open>..\<close>, drop \<open>.\<close>, let \<open>..\<close> pop the top unless the top is \<open>..\<close> (then push it), push every
  other segment, empty ones included, remove the sentinel and join with the slash. In
  particular the documented example evaluates as the specification says.
\<close>

theorem normalizeUnixPath_sentinel_stack:
  "normalizeUnixPath p = spec_normalizeUnixPath p \<and>
   normalizeUnixPath ''../helloworld/./temp/../././/hello.txt'' = ''../helloworld//hello.txt''"
proof
  have "array_shift xs = drop 1 xs" for xs :: "string list"
    by (cases xs) (simp_all add: array_shift_def)
  then show "normalizeUnixPath p = spec_normalizeUnixPath p"
    using rev_normalize_loop[of "[''..'']" "str_split (CHR ''/'') p", symmetric]
    by (simp add: normalizeUnixPath_def spec_normalizeUnixPath_def sep_def)
next
  show "normalizeUnixPath ''../helloworld/./temp/../././/hello.txt'' = ''../helloworld//hello.txt''"
    by (simp add: normalizeUnixPath_def normalize_step_def at_last_def array_pop_def
        array_push_def array_shift_def sep_def)
qed

text \<open>
  C10. For every string \<open>p\<close>, when \<open>normalizeUnixPath p\<close> is split on the slash, no segment
  is \<open>.\<close>, and every segment \<open>..\<close> lies in the leading run of \<open>..\<close> segments: after the
  leading run is dropped no \<open>..\<close> is left.
\<close>

theorem normalizeUnixPath_output_shape:
  "''.'' \<notin> set (str_split (CHR ''/'') (normalizeUnixPath p)) \<and>
   ''..'' \<notin> set (dropWhile (\<lambda>seg. seg = ''..'') (str_split (CHR ''/'') (normalizeUnixPath p)))"
proof -
  obtain k rest where shape: "output_segments_of p = replicate k ''..'' @ rest"
    "''.'' \<notin> set rest" "''..'' \<notin> set rest"
    using output_segments_shape by blast
  show ?thesis
  proof (cases "output_segments_of p = []")
    case True
    then show ?thesis by (simp add: split_normalizeUnixPath)
  next
    case False
    have "dropWhile (\<lambda>seg. seg = ''..'') (replicate k ''..'' @ rest)
          = dropWhile (\<lambda>seg. seg = ''..'') rest"
      by (simp add: dropWhile_append)
    moreover have "''..'' \<notin> set (dropWhile (\<lambda>seg. seg = ''..'') rest)"
      using shape(3) set_dropWhileD by metis
    ultimately show ?thesis using False shape by (simp add: split_normalizeUnixPath)
  qed
qed

section \<open>Claims about getUriScheme\<close>

text \<open>
  C3. \<open>getUriScheme\<close> is total on strings: the empty string gives \<open>undefined\<close>; any other
  string gives the scheme of the first prefix of the ordered list \<open>npm:\<close>, \<open>jsr:\<close>, \<open>data:\<close>,
  \<open>http://\<close>, \<open>https://\<close>, \<open>file://\<close>, \<open>./\<close>, \<open>../\<close> that it starts with, and \<open>local\<close>
  when it starts with none; so the result is one of the nine values of \<open>UriScheme\<close>.
\<close>

theorem getUriScheme_total:
  "getUriScheme p =
     (if p = [] then Undefined
      else if prefix ''npm:'' p then Npm
      else if prefix ''jsr:'' p then Jsr
      else if prefix ''data:'' p then Data
      else if prefix ''http://'' p then Http
      else if prefix ''https://'' p then Https
      else if prefix ''file://'' p then File
      else if prefix ''./'' p then Relative
      else if prefix ''../'' p then Relative
      else Local) \<and>
   getUriScheme p \<in> {Undefined, Local, Relative, File, Http, Https, Data, Jsr, Npm} \<and>
   card {Undefined, Local, Relative, File, Http, Https, Data, Jsr, Npm} = 9"
proof (intro conjI)
  show "getUriScheme p =
     (if p = [] then Undefined
      else if prefix ''npm:'' p then Npm
      else if prefix ''jsr:'' p then Jsr
      else if prefix ''data:'' p then Data
      else if prefix ''http://'' p then Http
      else if prefix ''https://'' p then Https
      else if prefix ''file://'' p then File
      else if prefix ''./'' p then Relative
      else if prefix ''../'' p then Relative
      else Local)"
    by (simp add: getUriScheme_def uri_protocol_and_scheme_mapping_def bind_string_startsWith_def)
  show "getUriScheme p \<in> {Undefined, Local, Relative, File, Http, Https, Data, Jsr, Npm}"
    by (cases "getUriScheme p") simp_all
  show "card {Undefined, Local, Relative, File, Http, Https, Data, Jsr, Npm} = 9"
    by simp
qed

section \<open>Matching one-code-unit patterns and their repetitions\<close>

lemma single_Lit: "single (Lit [a]) (\<lambda>x. x = a)"
  by (auto simp: single_def split: list.splits)

lemma single_NoneOf: "single (NoneOf cs) (\<lambda>x. x \<notin> set cs)"
  by (auto simp: single_def split: list.splits)

lemma single_AnyChar: "single AnyChar (\<lambda>x. x \<notin> set line_terminators)"
  by (auto simp: single_def split: list.splits)

lemma suffixes_while_not_Nil: "suffixes_while P s \<noteq> []"
  by (induction s) auto

lemma hd_suffixes_while: "hd (suffixes_while P s) = dropWhile P s"
  by (induction s) (auto simp: suffixes_while_not_Nil)

lemma rmatch_Rep_single:
  assumes "single r P"
  shows "rmatch n (Rep g r) s c =
           map (\<lambda>s'. (s', c)) (if g then suffixes_while P s else rev (suffixes_while P s))"
proof (induction s)
  case Nil
  have "rmatch n r [] c = []" using assms by (simp add: single_def)
  then show ?case by (simp add: rmatch.simps(6) progress_def)
next
  case (Cons x xs)
  have r: "rmatch n r (x # xs) c = (if P x then [(xs, c)] else [])"
    using assms by (simp add: single_def)
  show ?case
    using Cons by (cases g) (simp_all add: rmatch.simps(6)[of n _ r "x # xs"] r progress_def rev_map)
qed

lemma rmatch_Plus_single_hd:
  assumes "single r P"
  shows "rmatch n (Plus r) s c =
           (case s of [] \<Rightarrow> []
            | x # xs \<Rightarrow> if P x then map (\<lambda>s'. (s', c)) (suffixes_while P xs) else [])"
proof -
  have r: "rmatch n r s c = (case s of [] \<Rightarrow> [] | x # xs \<Rightarrow> if P x then [(xs, c)] else [])"
    using assms by (simp add: single_def)
  show ?thesis
    by (simp add: Plus_def r rmatch_Rep_single[OF assms] split: list.splits)
qed

lemma unix_scan:
  "replaceAll_scan n windows_directory_slash_regex sep s =
     (case s of [] \<Rightarrow> []
      | x # xs \<Rightarrow>
          if x = CHR 0x5C
          then sep @ replaceAll_scan n windows_directory_slash_regex sep (dropWhile (\<lambda>y. y = CHR 0x5C) xs)
          else x # replaceAll_scan n windows_directory_slash_regex sep xs)"
proof (cases s)
  case Nil
  then show ?thesis
    by (simp add: replaceAll_scan.simps[of n _ _ "[]"] windows_directory_slash_regex_def
        rmatch_Plus_single_hd[OF single_Lit])
next
  case (Cons x xs)
  obtain ys where ys: "suffixes_while (\<lambda>y. y = CHR 0x5C) xs = dropWhile (\<lambda>y. y = CHR 0x5C) xs # ys"
    using hd_suffixes_while[of "\<lambda>y. y = CHR 0x5C" xs] suffixes_while_not_Nil[of "\<lambda>y. y = CHR 0x5C" xs]
    by (cases "suffixes_while (\<lambda>y. y = CHR 0x5C) xs") auto
  have len: "length (dropWhile (\<lambda>y. y = CHR 0x5C) xs) < Suc (length xs)"
    by (simp add: length_dropWhile_le less_Suc_eq_le)
  show ?thesis using Cons ys len
    by (simp add: replaceAll_scan.simps[of n _ _ "x # xs"] windows_directory_slash_regex_def
        rmatch_Plus_single_hd[OF single_Lit])
qed

lemma unix_scan_no_backslash:
  "CHR 0x5C \<notin> set (replaceAll_scan n windows_directory_slash_regex sep s)"
proof (induction s rule: length_induct)
  case (1 s)
  show ?case
  proof (cases s)
    case Nil
    then show ?thesis by (subst unix_scan) simp
  next
    case (Cons x xs)
    have "length (dropWhile (\<lambda>y. y = CHR 0x5C) xs) < length s"
      using Cons by (simp add: length_dropWhile_le less_Suc_eq_le)
    with 1 have a: "CHR 0x5C \<notin> set (replaceAll_scan n windows_directory_slash_regex sep (dropWhile (\<lambda>y. y = CHR 0x5C) xs))"
      by blast
    have b: "CHR 0x5C \<notin> set (replaceAll_scan n windows_directory_slash_regex sep xs)"
      using 1 Cons by simp
    show ?thesis using Cons a b by (subst unix_scan) (simp add: sep_def)
  qed
qed

lemma unix_scan_id:
  "CHR 0x5C \<notin> set s \<Longrightarrow> replaceAll_scan n windows_directory_slash_regex sep s = s"
proof (induction s)
  case Nil
  then show ?case by (subst unix_scan) simp
next
  case (Cons x xs)
  then show ?case by (subst unix_scan) auto
qed

lemma pathToUnixPath_no_backslash: "CHR 0x5C \<notin> set (pathToUnixPath p)"
  by (simp add: pathToUnixPath_def str_replaceAll_def unix_scan_no_backslash)

lemma pathToUnixPath_id: "CHR 0x5C \<notin> set p \<Longrightarrow> pathToUnixPath p = p"
  by (simp add: pathToUnixPath_def str_replaceAll_def unix_scan_id)

section \<open>Code units of the normalised path\<close>

lemma str_split_subset: "seg \<in> set (str_split c s) \<Longrightarrow> x \<in> set seg \<Longrightarrow> x \<in> set s"
proof (induction s arbitrary: seg)
  case Nil
  then show ?case by simp
next
  case (Cons a s)
  obtain y ys where y: "str_split c s = y # ys"
    using str_split_not_Nil[of c s] by (cases "str_split c s") auto
  show ?case using Cons y by (fastforce split: if_splits)
qed

lemma takeWhile_rev_shorter:
  assumes "c \<in> set s"
  shows "length (takeWhile (\<lambda>x. x \<noteq> c) (rev s)) < length s"
proof (rule ccontr)
  assume "\<not> length (takeWhile (\<lambda>x. x \<noteq> c) (rev s)) < length s"
  moreover have "length (takeWhile (\<lambda>x. x \<noteq> c) (rev s)) + length (dropWhile (\<lambda>x. x \<noteq> c) (rev s))
      = length s"
    using length_append[of "takeWhile (\<lambda>x. x \<noteq> c) (rev s)" "dropWhile (\<lambda>x. x \<noteq> c) (rev s)"]
    by simp
  ultimately have "length (dropWhile (\<lambda>x. x \<noteq> c) (rev s)) = 0" by linarith
  then have "dropWhile (\<lambda>x. x \<noteq> c) (rev s) = []" by (simp only: length_0_conv)
  then have "\<forall>x \<in> set (rev s). x \<noteq> c" by (simp only: dropWhile_eq_Nil_conv)
  with assms show False by auto
qed

lemma str_join_absent:
  "c \<notin> set s \<Longrightarrow> \<forall>x \<in> set xs. c \<notin> set x \<Longrightarrow> c \<notin> set (str_join s xs)"
  by (induction xs rule: induct_list012) auto

lemma normalizeUnixPath_absent:
  assumes "c \<notin> set p" and "c \<noteq> CHR ''/''" and "c \<noteq> CHR ''.''"
  shows "c \<notin> set (normalizeUnixPath p)"
proof -
  have segs: "\<forall>x \<in> set (str_split (CHR ''/'') p). c \<notin> set x"
    using assms(1) str_split_subset by blast
  have init: "\<forall>x \<in> set [''..'']. c \<notin> set x"
    using assms(3) by simp
  have "\<forall>x \<in> set (normalize_loop [''..''] (str_split (CHR ''/'') p)). c \<notin> set x"
    by (rule normalize_loop_no_sep[OF init segs])
  moreover have "set (array_shift ys) \<subseteq> set ys" for ys :: "string list"
    by (cases ys) (auto simp: array_shift_def)
  ultimately have "\<forall>x \<in> set (output_segments_of p). c \<notin> set x"
    unfolding output_segments_of_def by blast
  then show ?thesis
    using assms(2) by (simp add: normalizeUnixPath_join str_join_absent)
qed

text \<open>
  C2. \<open>normalizePath\<close> is idempotent: for every string \<open>p\<close>,
  \<open>normalizePath (normalizePath p) = normalizePath p\<close>.
\<close>

theorem normalizePath_idempotent: "normalizePath (normalizePath p) = normalizePath p"
proof -
  have "CHR 0x5C \<notin> set (normalizeUnixPath (pathToUnixPath p))"
    by (rule normalizeUnixPath_absent[OF pathToUnixPath_no_backslash]) simp_all
  then have "pathToUnixPath (normalizePath p) = normalizePath p"
    by (simp add: normalizePath_def pathToUnixPath_id)
  then show ?thesis
    by (simp add: normalizePath_def[of "normalizePath p"])
       (simp add: normalizePath_def normalizeUnixPath_idem)
qed

section \<open>The common directory prefix\<close>

lemma commonPrefix_prefix: "p \<in> set ps \<Longrightarrow> prefix (commonPrefix ps) p"
proof (induction ps rule: induct_list012)
  case 1
  then show ?case by simp
next
  case (2 x)
  then show ?case by simp
next
  case (3 x y zs)
  show ?case
  proof (cases "p = x")
    case True
    then show ?thesis by (simp add: longest_common_prefix_prefix1)
  next
    case False
    with 3 have "prefix (commonPrefix (y # zs)) p" by simp
    moreover have "prefix (commonPrefix (x # y # zs)) (commonPrefix (y # zs))"
      by (simp add: longest_common_prefix_prefix2)
    ultimately show ?thesis using prefix_order.trans by blast
  qed
qed

lemma commonPrefix_greatest:
  "ps \<noteq> [] \<Longrightarrow> \<forall>p \<in> set ps. prefix q p \<Longrightarrow> prefix q (commonPrefix ps)"
proof (induction ps rule: induct_list012)
  case 1
  then show ?case by simp
next
  case (2 x)
  then show ?case by simp
next
  case (3 x y zs)
  then have "prefix q (commonPrefix (y # zs))" by simp
  moreover have "prefix q x" using 3 by simp
  ultimately show ?case by (simp add: longest_common_prefix_max_prefix)
qed

text \<open>The part of a string up to and including its last slash.\<close>

lemma take_lastIndexOf:
  "take (nat (lastIndexOf s c + 1)) s = rev (dropWhile (\<lambda>x. x \<noteq> c) (rev s))"
proof -
  let ?t = "takeWhile (\<lambda>x. x \<noteq> c) (rev s)"
  have len: "length ?t \<le> length s"
    using length_takeWhile_le[of "\<lambda>x. x \<noteq> c" "rev s"] by simp
  have n: "nat (lastIndexOf s c + 1) = length s - length ?t"
  proof (cases "c \<in> set s")
    case True
    then have "length ?t < length s"
      by (rule takeWhile_rev_shorter)
    with True show ?thesis by (simp add: lastIndexOf_def)
  next
    case False
    then have "?t = rev s" by auto
    then have "length ?t = length s" by (metis length_rev)
    with False show ?thesis by (simp add: lastIndexOf_def)
  qed
  have "rev s = ?t @ dropWhile (\<lambda>x. x \<noteq> c) (rev s)" by simp
  then have "s = rev (dropWhile (\<lambda>x. x \<noteq> c) (rev s)) @ rev ?t"
    by (metis rev_append rev_rev_ident)
  moreover have "length (rev (dropWhile (\<lambda>x. x \<noteq> c) (rev s))) = length s - length ?t"
    using length_append[of ?t "dropWhile (\<lambda>x. x \<noteq> c) (rev s)"] by simp
  ultimately show ?thesis using n
    by (metis append_eq_conv_conj)
qed

lemma commonNormalizedUnixPath_loop_eq:
  "commonNormalizedUnixPath_loop cp n ps =
     (if \<exists>q \<in> set ps. \<not> prefix sep (drop n q)
      then take (nat (lastIndexOf cp (CHR ''/'') + 1)) cp else cp)"
  by (induction ps) (simp_all add: Let_def)

text \<open>Some path does not continue the longest common prefix with a slash.\<close>

lemma commonPrefix_not_followed_by_sep:
  assumes "ps \<noteq> []"
  shows "\<exists>q \<in> set ps. \<not> prefix sep (drop (length (commonPrefix ps)) q)"
proof (rule ccontr)
  assume "\<not> ?thesis"
  then have all: "\<forall>q \<in> set ps. prefix sep (drop (length (commonPrefix ps)) q)" by blast
  have "\<forall>q \<in> set ps. prefix (commonPrefix ps @ sep) q"
  proof
    fix q assume q: "q \<in> set ps"
    then obtain r where "q = commonPrefix ps @ r"
      using commonPrefix_prefix[OF q] by (auto simp: prefix_def)
    moreover from this all q have "prefix sep r" by auto
    ultimately show "prefix (commonPrefix ps @ sep) q" by simp
  qed
  then have "prefix (commonPrefix ps @ sep) (commonPrefix ps)"
    by (rule commonPrefix_greatest[OF assms])
  then show False by (simp add: sep_def)
qed

lemma commonNormalizedUnixPath_trimmed:
  "ps \<noteq> [] \<Longrightarrow>
   commonNormalizedUnixPath ps =
     take (nat (lastIndexOf (commonPrefix ps) (CHR ''/'') + 1)) (commonPrefix ps)"
  using commonPrefix_not_followed_by_sep[of ps]
  by (simp add: commonNormalizedUnixPath_def commonNormalizedUnixPath_loop_eq Let_def)

lemma dir_part_shape:
  "rev (dropWhile (\<lambda>x. x \<noteq> c) (rev s)) = [] \<or> suffix [c] (rev (dropWhile (\<lambda>x. x \<noteq> c) (rev s)))"
proof (cases "dropWhile (\<lambda>x. x \<noteq> c) (rev s)")
  case Nil
  then show ?thesis by simp
next
  case (Cons y ys)
  then have "y = c" using hd_dropWhile[of "\<lambda>x. x \<noteq> c" "rev s"] by auto
  with Cons show ?thesis by (simp add: suffix_def)
qed

lemma dir_part_prefix: "prefix (rev (dropWhile (\<lambda>x. x \<noteq> c) (rev s))) s"
proof -
  have "rev s = takeWhile (\<lambda>x. x \<noteq> c) (rev s) @ dropWhile (\<lambda>x. x \<noteq> c) (rev s)" by simp
  then have "s = rev (dropWhile (\<lambda>x. x \<noteq> c) (rev s)) @ rev (takeWhile (\<lambda>x. x \<noteq> c) (rev s))"
    by (metis rev_append rev_rev_ident)
  then show ?thesis by (metis prefixI)
qed

lemma dir_part_greatest:
  assumes "prefix q s" and "q = [] \<or> suffix [c] q"
  shows "prefix q (rev (dropWhile (\<lambda>x. x \<noteq> c) (rev s)))"
proof (cases "q = []")
  case True
  then show ?thesis by simp
next
  case False
  with assms(2) obtain q' where q: "q = q' @ [c]" by (auto simp: suffix_def)
  from assms(1) obtain r where s: "s = q' @ [c] @ r" by (auto simp: prefix_def q)
  have "rev s = rev r @ c # rev q'" by (simp add: s)
  then have "dropWhile (\<lambda>x. x \<noteq> c) (rev s) =
     dropWhile (\<lambda>x. x \<noteq> c) (rev r) @ c # rev q' \<or>
     dropWhile (\<lambda>x. x \<noteq> c) (rev s) = c # rev q'"
    by (cases "\<forall>x \<in> set (rev r). x \<noteq> c") (auto simp: dropWhile_append)
  then show ?thesis
    by (auto simp: q)
qed

lemma commonNormalizedUnixPath_dir_part:
  "ps \<noteq> [] \<Longrightarrow>
   commonNormalizedUnixPath ps = rev (dropWhile (\<lambda>x. x \<noteq> CHR ''/'') (rev (commonPrefix ps)))"
  by (simp add: commonNormalizedUnixPath_trimmed take_lastIndexOf)

lemma commonNormalizedUnixPath_shape:
  assumes "ps \<noteq> []"
  shows "commonNormalizedUnixPath ps = [] \<or> suffix ''/'' (commonNormalizedUnixPath ps)"
  unfolding commonNormalizedUnixPath_dir_part[OF assms] by (rule dir_part_shape)

lemma commonNormalizedUnixPath_prefix:
  assumes "ps \<noteq> []" and "p \<in> set ps"
  shows "prefix (commonNormalizedUnixPath ps) p"
proof -
  have "prefix (rev (dropWhile (\<lambda>x. x \<noteq> CHR ''/'') (rev (commonPrefix ps)))) (commonPrefix ps)"
    by (rule dir_part_prefix)
  moreover have "prefix (commonPrefix ps) p" by (rule commonPrefix_prefix[OF assms(2)])
  ultimately show ?thesis
    unfolding commonNormalizedUnixPath_dir_part[OF assms(1)] by (rule prefix_order.trans)
qed

lemma commonNormalizedUnixPath_greatest:
  assumes "ps \<noteq> []" and "q = [] \<or> suffix ''/'' q" and "\<forall>p \<in> set ps. prefix q p"
  shows "prefix q (commonNormalizedUnixPath ps)"
proof -
  have "prefix q (commonPrefix ps)"
    using commonPrefix_greatest[OF assms(1)] assms(3) by blast
  then show ?thesis
    unfolding commonNormalizedUnixPath_dir_part[OF assms(1)]
    using assms(2) by (rule dir_part_greatest)
qed

text \<open>
  C8. For a non-empty list of paths, \<open>commonNormalizedUnixPath\<close> returns the longest common
  character-prefix of the paths trimmed back to its last slash: the result is empty or
  ends with a slash, it is a prefix of every path, and every common prefix of the paths
  that is empty or ends with a slash is a prefix of it. \<open>commonPath\<close> lifts this through
  \<open>normalizePath\<close>: its result is that of \<open>commonNormalizedUnixPath\<close> on the normalized
  paths, so it is empty or ends with a slash, it is a prefix of every normalized path,
  and it is the longest such prefix. \<open>commonPath\<close> gives \<open>C:/Hello/\<close> for the two documented
  paths; on the documented paths with dot segments and with backslashes it gives the
  documented directories, where \<open>commonNormalizedUnixPath\<close> on the paths as given finds no
  common directory.
\<close>

theorem commonNormalizedUnixPath_common_directory:
  assumes "paths \<noteq> []"
  shows "commonNormalizedUnixPath paths =
           take (nat (lastIndexOf (commonPrefix paths) (CHR ''/'') + 1)) (commonPrefix paths) \<and>
    (\<forall>p \<in> set paths. prefix (commonPrefix paths) p) \<and>
    (\<forall>q. (\<forall>p \<in> set paths. prefix q p) \<longrightarrow> prefix q (commonPrefix paths)) \<and>
    (commonNormalizedUnixPath paths = [] \<or> suffix ''/'' (commonNormalizedUnixPath paths)) \<and>
    (\<forall>p \<in> set paths. prefix (commonNormalizedUnixPath paths) p) \<and>
    (\<forall>q. (q = [] \<or> suffix ''/'' q) \<and> (\<forall>p \<in> set paths. prefix q p)
           \<longrightarrow> prefix q (commonNormalizedUnixPath paths)) \<and>
    commonPath [''C:/Hello/World/This/Is/An/Example/Bla.cs'', ''C:/Hello/Earth/Bla/Bla/Bla'']
           = ''C:/Hello/'' \<and>
    commonPath paths = commonNormalizedUnixPath (map normalizePath paths) \<and>
    (commonPath paths = [] \<or> suffix ''/'' (commonPath paths)) \<and>
    (\<forall>p \<in> set paths. prefix (commonPath paths) (normalizePath p)) \<and>
    (\<forall>q. (q = [] \<or> suffix ''/'' q) \<and> (\<forall>p \<in> set paths. prefix q (normalizePath p))
           \<longrightarrow> prefix q (commonPath paths)) \<and>
    commonPath
      [''C:/Hello/World/This/Used/to-be-an/example/../../../Is/An/Example/Bla.cs'',
       ''./C:/Hello/World/This/Is/an/example/bla.cs'',
       ''C:/Hello/World/This/Is/Not/An/Example/''] = ''C:/Hello/World/This/Is/'' \<and>
    commonNormalizedUnixPath
      [''C:/Hello/World/This/Used/to-be-an/example/../../../Is/An/Example/Bla.cs'',
       ''./C:/Hello/World/This/Is/an/example/bla.cs'',
       ''C:/Hello/World/This/Is/Not/An/Example/''] = [] \<and>
    commonPath
      [''C:/Hello/World/This/Is/An/Example/Bla.cs'',
       ''C:'' @ [CHR 0x5C] @ ''Hello'' @ [CHR 0x5C] @ ''World'' @ [CHR 0x5C] @ ''This''
         @ [CHR 0x5C] @ ''Is'' @ [CHR 0x5C] @ ''Not/An/Example/'',
       ''C:/Hello/Earth/Bla/Bla/Bla''] = ''C:/Hello/''"
proof -
  let ?np = "map normalizePath paths"
  have ne: "?np \<noteq> []" using assms by simp
  have t: "commonNormalizedUnixPath paths =
      take (nat (lastIndexOf (commonPrefix paths) (CHR ''/'') + 1)) (commonPrefix paths)"
    by (rule commonNormalizedUnixPath_trimmed[OF assms])
  have cpp: "\<forall>p \<in> set paths. prefix (commonPrefix paths) p" by (simp add: commonPrefix_prefix)
  have cpg: "\<forall>q. (\<forall>p \<in> set paths. prefix q p) \<longrightarrow> prefix q (commonPrefix paths)"
    using commonPrefix_greatest[OF assms] by blast
  have shape: "commonNormalizedUnixPath paths = [] \<or> suffix ''/'' (commonNormalizedUnixPath paths)"
    by (rule commonNormalizedUnixPath_shape[OF assms])
  have pre: "\<forall>p \<in> set paths. prefix (commonNormalizedUnixPath paths) p"
    using commonNormalizedUnixPath_prefix[OF assms] by blast
  have great: "\<forall>q. (q = [] \<or> suffix ''/'' q) \<and> (\<forall>p \<in> set paths. prefix q p)
           \<longrightarrow> prefix q (commonNormalizedUnixPath paths)"
    using commonNormalizedUnixPath_greatest[OF assms] by blast
  have ex: "commonPath [''C:/Hello/World/This/Is/An/Example/Bla.cs'', ''C:/Hello/Earth/Bla/Bla/Bla'']
           = ''C:/Hello/''"
    by code_simp
  have lift: "commonPath paths = commonNormalizedUnixPath ?np"
    by (simp add: commonPath_def)
  have cshape: "commonPath paths = [] \<or> suffix ''/'' (commonPath paths)"
    unfolding lift by (rule commonNormalizedUnixPath_shape[OF ne])
  have cpre: "\<forall>p \<in> set paths. prefix (commonPath paths) (normalizePath p)"
  proof
    fix p assume "p \<in> set paths"
    then have "normalizePath p \<in> set ?np" by simp
    then show "prefix (commonPath paths) (normalizePath p)"
      unfolding lift by (rule commonNormalizedUnixPath_prefix[OF ne])
  qed
  have cgreat: "\<forall>q. (q = [] \<or> suffix ''/'' q) \<and> (\<forall>p \<in> set paths. prefix q (normalizePath p))
           \<longrightarrow> prefix q (commonPath paths)"
  proof (intro allI impI)
    fix q assume q: "(q = [] \<or> suffix ''/'' q) \<and> (\<forall>p \<in> set paths. prefix q (normalizePath p))"
    then have "\<forall>p \<in> set ?np. prefix q p" by simp
    with q show "prefix q (commonPath paths)"
      unfolding lift using commonNormalizedUnixPath_greatest[OF ne, of q] by blast
  qed
  have ex2: "commonPath
      [''C:/Hello/World/This/Used/to-be-an/example/../../../Is/An/Example/Bla.cs'',
       ''./C:/Hello/World/This/Is/an/example/bla.cs'',
       ''C:/Hello/World/This/Is/Not/An/Example/''] = ''C:/Hello/World/This/Is/''"
    by code_simp
  have ex3: "commonNormalizedUnixPath
      [''C:/Hello/World/This/Used/to-be-an/example/../../../Is/An/Example/Bla.cs'',
       ''./C:/Hello/World/This/Is/an/example/bla.cs'',
       ''C:/Hello/World/This/Is/Not/An/Example/''] = []"
    by code_simp
  have ex4: "commonPath
      [''C:/Hello/World/This/Is/An/Example/Bla.cs'',
       ''C:'' @ [CHR 0x5C] @ ''Hello'' @ [CHR 0x5C] @ ''World'' @ [CHR 0x5C] @ ''This''
         @ [CHR 0x5C] @ ''Is'' @ [CHR 0x5C] @ ''Not/An/Example/'',
       ''C:/Hello/Earth/Bla/Bla/Bla''] = ''C:/Hello/''"
    by code_simp
  from t cpp cpg shape pre great ex lift cshape cpre cgreat ex2 ex3 ex4
  show ?thesis by (intro conjI)
qed

theorem commonNormalizedUnixPath_common_directory_witness:
  "commonNormalizedUnixPath
     [''C:/Hello/World/This/Is/An/Example/Bla.cs'',
      ''C:/Hello/World/This/Is/Not/An/Example/'',
      ''C:/Hello/Earth/Bla/Bla/Bla''] = ''C:/Hello/'' \<and>
   prefix ''C:/Hello/'' ''C:/Hello/World/This/Is/An/Example/Bla.cs'' \<and>
   prefix ''C:/Hello/'' ''C:/Hello/World/This/Is/Not/An/Example/'' \<and>
   prefix ''C:/Hello/'' ''C:/Hello/Earth/Bla/Bla/Bla''"
proof -
  have ne: "[''C:/Hello/World/This/Is/An/Example/Bla.cs'',
      ''C:/Hello/World/This/Is/Not/An/Example/'',
      ''C:/Hello/Earth/Bla/Bla/Bla''] \<noteq> []" by simp
  have "commonNormalizedUnixPath
     [''C:/Hello/World/This/Is/An/Example/Bla.cs'',
      ''C:/Hello/World/This/Is/Not/An/Example/'',
      ''C:/Hello/Earth/Bla/Bla/Bla''] = ''C:/Hello/''"
    using commonNormalizedUnixPath_common_directory[OF ne, THEN conjunct1]
    by (simp add: lastIndexOf_def)
  then show ?thesis by simp
qed


section \<open>Which matches a pattern offers\<close>

lemma mem_Lit:
  "(s', c') \<in> set (rmatch n (Lit l) s c) \<longleftrightarrow> c' = c \<and> s = l @ s'"
  by (auto simp: prefix_def)

lemma mem_single:
  "single r P \<Longrightarrow> (s', c') \<in> set (rmatch n r s c) \<longleftrightarrow> c' = c \<and> (\<exists>x. s = x # s' \<and> P x)"
  by (auto simp: single_def split: list.splits)

lemma mem_Cat:
  "(s'', c'') \<in> set (rmatch n (Cat a b) s c) \<longleftrightarrow>
     (\<exists>s' c'. (s', c') \<in> set (rmatch n a s c) \<and> (s'', c'') \<in> set (rmatch n b s' c'))"
  by auto

lemma mem_Opt:
  "(s', c') \<in> set (rmatch n (Opt r) s c) \<longleftrightarrow>
     ((s', c') \<in> set (rmatch n r s c) \<and> length s' < length s) \<or> (s', c') = (s, c)"
  by (auto simp: progress_def)

lemma mem_Grp:
  "(s', c'') \<in> set (rmatch n (Grp nm r) s c) \<longleftrightarrow>
     (\<exists>c'. (s', c') \<in> set (rmatch n r s c) \<and> c'' = (nm, take (length s - length s') s) # c')"
  by auto

lemma mem_suffixes_while:
  "s' \<in> set (suffixes_while P s) \<longleftrightarrow> (\<exists>t. s = t @ s' \<and> (\<forall>x \<in> set t. P x))"
proof (induction s)
  case Nil
  then show ?case by auto
next
  case (Cons a s)
  show ?case
  proof (cases "P a")
    case True
    have "(\<exists>t. a # s = t @ s' \<and> (\<forall>x \<in> set t. P x)) \<longleftrightarrow>
          s' = a # s \<or> (\<exists>t. s = t @ s' \<and> (\<forall>x \<in> set t. P x))"
      using True by (auto simp: Cons_eq_append_conv)
    with Cons True show ?thesis by auto
  next
    case False
    have "(\<exists>t. a # s = t @ s' \<and> (\<forall>x \<in> set t. P x)) \<longleftrightarrow> s' = a # s"
      using False by (auto simp: Cons_eq_append_conv)
    with False show ?thesis by auto
  qed
qed

lemma mem_Rep_single:
  "single r P \<Longrightarrow>
   (s', c') \<in> set (rmatch n (Rep g r) s c) \<longleftrightarrow>
     c' = c \<and> (\<exists>t. s = t @ s' \<and> (\<forall>x \<in> set t. P x))"
  by (auto simp: rmatch_Rep_single mem_suffixes_while)

lemma mem_Plus_single:
  assumes "single r P"
  shows "(s', c') \<in> set (rmatch n (Plus r) s c) \<longleftrightarrow>
     c' = c \<and> (\<exists>t. t \<noteq> [] \<and> s = t @ s' \<and> (\<forall>x \<in> set t. P x))"
proof
  assume "(s', c') \<in> set (rmatch n (Plus r) s c)"
  then obtain s1 c1 where a: "(s1, c1) \<in> set (rmatch n r s c)"
    and b: "(s', c') \<in> set (rmatch n (Rep True r) s1 c1)"
    unfolding Plus_def mem_Cat by blast
  from a obtain x where x: "c1 = c" "s = x # s1" "P x"
    using mem_single[OF assms] by blast
  from b obtain t where t: "c' = c1" "s1 = t @ s'" "\<forall>x \<in> set t. P x"
    using mem_Rep_single[OF assms] by blast
  have "x # t \<noteq> [] \<and> s = (x # t) @ s' \<and> (\<forall>y \<in> set (x # t). P y)"
    using x t by simp
  then show "c' = c \<and> (\<exists>t. t \<noteq> [] \<and> s = t @ s' \<and> (\<forall>x \<in> set t. P x))"
    using x(1) t(1) by blast
next
  assume "c' = c \<and> (\<exists>t. t \<noteq> [] \<and> s = t @ s' \<and> (\<forall>x \<in> set t. P x))"
  then obtain t where t: "c' = c" "t \<noteq> []" "s = t @ s'" "\<forall>x \<in> set t. P x" by blast
  then obtain x t' where xt: "t = x # t'" by (cases t) auto
  have "(t' @ s', c) \<in> set (rmatch n r s c)"
    using mem_single[OF assms, of "t' @ s'" c n s c] t xt by simp
  moreover have "(s', c') \<in> set (rmatch n (Rep True r) (t' @ s') c)"
    using mem_Rep_single[OF assms, of s' c' n True "t' @ s'" c] t xt by auto
  ultimately show "(s', c') \<in> set (rmatch n (Plus r) s c)"
    unfolding Plus_def mem_Cat by blast
qed

text \<open>A pattern anchored at the start of the input matches at index 0 only.\<close>

lemma exec_scan_Bol_later:
  "length t < n \<Longrightarrow> exec_scan n (Cat Bol r) t = None"
  by (induction t) auto

section \<open>trimStartSlashes\<close>

lemma drop_length_dropWhile:
  "drop (length s - length (dropWhile P s)) s = dropWhile P s"
proof -
  have "s = takeWhile P s @ dropWhile P s" by simp
  moreover have "length s - length (dropWhile P s) = length (takeWhile P s)"
    using length_append[of "takeWhile P s" "dropWhile P s"] by simp
  ultimately show ?thesis by (metis append_eq_conv_conj)
qed

lemma trimStartSlashes_eq: "trimStartSlashes s = dropWhile (\<lambda>x. x = CHR ''/'') s"
proof (cases s)
  case Nil
  then show ?thesis
    by (simp add: trimStartSlashes_def str_replace_def regex_exec_def leading_slashes_regex_def
        rmatch_Plus_single_hd[OF single_Lit])
next
  case (Cons x xs)
  show ?thesis
  proof (cases "x = CHR ''/''")
    case True
    obtain ys where ys: "suffixes_while (\<lambda>y. y = CHR ''/'') xs = dropWhile (\<lambda>y. y = CHR ''/'') xs # ys"
      using hd_suffixes_while[of "\<lambda>y. y = CHR ''/''" xs] suffixes_while_not_Nil[of "\<lambda>y. y = CHR ''/''" xs]
      by (cases "suffixes_while (\<lambda>y. y = CHR ''/'') xs") auto
    have d: "dropWhile (\<lambda>x. x = CHR ''/'') s = dropWhile (\<lambda>x. x = CHR ''/'') xs"
      using Cons True by simp
    have le: "length (dropWhile (\<lambda>x. x = CHR ''/'') xs) \<le> length xs"
      by (rule length_dropWhile_le)
    have "regex_exec leading_slashes_regex s =
        Some \<lparr>index = 0, matched = take (length s - length (dropWhile (\<lambda>x. x = CHR ''/'') s)) s, groups = []\<rparr>"
      using Cons True ys d
      by (simp add: regex_exec_def leading_slashes_regex_def rmatch_Plus_single_hd[OF single_Lit])
    then have "trimStartSlashes s = drop (length s - length (dropWhile (\<lambda>x. x = CHR ''/'') s)) s"
      using le d Cons by (simp add: trimStartSlashes_def str_replace_def min_def)
    then show ?thesis by (simp only: drop_length_dropWhile)
  next
    case False
    have "exec_scan (length s) leading_slashes_regex xs = None"
      unfolding leading_slashes_regex_def
      by (rule exec_scan_Bol_later) (simp add: Cons)
    then have "regex_exec leading_slashes_regex s = None"
      using Cons False
      by (simp add: regex_exec_def)
         (simp add: leading_slashes_regex_def rmatch_Plus_single_hd[OF single_Lit])
    then show ?thesis using Cons False by (simp add: trimStartSlashes_def str_replace_def)
  qed
qed

section \<open>The file name of a path\<close>

lemma continue_with_Nil: "continue_with [] K = []"
  by (simp add: continue_with_def)

lemma continue_with_Cons: "continue_with ((s, c) # rs) K = K s c @ continue_with rs K"
  by (simp add: continue_with_def)

lemma continue_with_append: "continue_with (a @ b) K = continue_with a K @ continue_with b K"
  by (simp add: continue_with_def)

lemma rmatch_Cat: "rmatch n (Cat a b) s c = continue_with (rmatch n a s c) (rmatch n b)"
  by (simp add: continue_with_def)

lemma continue_with_if: "continue_with (if b then x else y) K = (if b then continue_with x K else continue_with y K)"
  by simp

lemmas cw = continue_with_Nil continue_with_Cons continue_with_append continue_with_if

lemma rmatch_Eol_fun: "rmatch n Eol = (\<lambda>s c. if s = [] then [(s, c)] else [])"
  by (intro ext) simp

lemma Eol_after_suffixes_while:
  "continue_with (map (\<lambda>s'. (s', c)) (suffixes_while P xs))
      (\<lambda>s c. if s = [] then [(s, c)] else []) =
     (if \<forall>x \<in> set xs. P x then [([], c)] else [])"
proof (induction xs)
  case Nil
  then show ?case by (simp add: cw)
next
  case (Cons a xs)
  show ?case
  proof (cases "P a")
    case True
    then show ?thesis by (simp add: cw Cons)
  next
    case False
    then show ?thesis by (simp add: cw)
  qed
qed

lemma rmatch_Plus_Eol:
  "rmatch n (Cat (Plus (NoneOf cs)) Eol) s c =
     (if s \<noteq> [] \<and> (\<forall>x \<in> set s. x \<notin> set cs) then [([], c)] else [])"
proof (cases s)
  case Nil
  then show ?thesis
    by (simp add: rmatch_Cat rmatch_Plus_single_hd[OF single_NoneOf] cw del: rmatch.simps(4))
next
  case (Cons x xs)
  then show ?thesis
    by (simp add: rmatch_Cat[of n "Plus (NoneOf cs)"] rmatch_Plus_single_hd[OF single_NoneOf] cw
        rmatch_Eol_fun Eol_after_suffixes_while del: rmatch.simps(4))
qed

text \<open>Where \<^const>\<open>filename_regex\<close> matches: at a rest without a slash, or at a slash followed
  by such a non-empty rest; the match then runs to the end of the input.\<close>

lemma rmatch_filename_regex_Nil: "rmatch n filename_regex [] [] = []"
  unfolding filename_regex_def
  by (simp add: rmatch_Cat[of n "Opt (Lit ''/'')"] progress_def cw rmatch_Plus_Eol del: rmatch.simps(4))

lemma rmatch_filename_regex_Cons:
  "rmatch n filename_regex (x # xs) [] =
     (if x \<noteq> CHR ''/'' \<and> CHR ''/'' \<notin> set xs then [([], [])]
      else if x = CHR ''/'' \<and> xs \<noteq> [] \<and> CHR ''/'' \<notin> set xs then [([], [])]
      else [])"
  unfolding filename_regex_def
  by (simp add: rmatch_Cat[of n "Opt (Lit ''/'')"] progress_def cw rmatch_Plus_Eol del: rmatch.simps(4))

lemma last_segment_Nil: "last_segment [] = []"
  by (simp add: last_segment_def)

lemma last_segment_Cons:
  "last_segment (a # s) =
     (if CHR ''/'' \<in> set s then last_segment s
      else if a = CHR ''/'' then s else a # s)"
  by (auto simp: last_segment_def takeWhile_append)

lemma filename_scan:
  "dropWhile (\<lambda>x. x = CHR ''/'')
     (case exec_scan n filename_regex s of None \<Rightarrow> [] | Some m \<Rightarrow> matched m) =
   last_segment s"
proof (induction s)
  case Nil
  then show ?case by (simp add: rmatch_filename_regex_Nil last_segment_Nil)
next
  case (Cons a s)
  show ?case
  proof (cases "CHR ''/'' \<in> set s")
    case True
    then show ?thesis using Cons
      by (simp add: rmatch_filename_regex_Cons last_segment_Cons)
  next
    case False
    show ?thesis
    proof (cases "a = CHR ''/''")
      case True
      show ?thesis
      proof (cases s)
        case Nil
        then show ?thesis using True
          by (simp add: rmatch_filename_regex_Cons rmatch_filename_regex_Nil last_segment_Cons)
      next
        case (Cons b t)
        then have "b \<noteq> CHR ''/''" using False by auto
        then show ?thesis using True False Cons
          by (simp add: rmatch_filename_regex_Cons last_segment_Cons)
      qed
    next
      case notslash: False
      then show ?thesis using False
        by (simp add: rmatch_filename_regex_Cons last_segment_Cons)
    qed
  qed
qed

lemma parseNormalizedUnixFilename_eq: "parseNormalizedUnixFilename p = last_segment p"
  by (simp add: parseNormalizedUnixFilename_def trimStartSlashes_eq regex_exec_def filename_scan)

section \<open>Base name and extension\<close>

lemma mem_PlusLazy_single:
  assumes "single r P"
  shows "(s', c') \<in> set (rmatch n (PlusLazy r) s c) \<longleftrightarrow>
     c' = c \<and> (\<exists>t. t \<noteq> [] \<and> s = t @ s' \<and> (\<forall>x \<in> set t. P x))"
proof
  assume "(s', c') \<in> set (rmatch n (PlusLazy r) s c)"
  then obtain s1 c1 where a: "(s1, c1) \<in> set (rmatch n r s c)"
    and b: "(s', c') \<in> set (rmatch n (Rep False r) s1 c1)"
    unfolding PlusLazy_def mem_Cat by blast
  from a obtain x where x: "c1 = c" "s = x # s1" "P x"
    using mem_single[OF assms] by blast
  from b obtain t where t: "c' = c1" "s1 = t @ s'" "\<forall>x \<in> set t. P x"
    using mem_Rep_single[OF assms] by blast
  have "x # t \<noteq> [] \<and> s = (x # t) @ s' \<and> (\<forall>y \<in> set (x # t). P y)"
    using x t by simp
  then show "c' = c \<and> (\<exists>t. t \<noteq> [] \<and> s = t @ s' \<and> (\<forall>x \<in> set t. P x))"
    using x(1) t(1) by blast
next
  assume "c' = c \<and> (\<exists>t. t \<noteq> [] \<and> s = t @ s' \<and> (\<forall>x \<in> set t. P x))"
  then obtain t where t: "c' = c" "t \<noteq> []" "s = t @ s'" "\<forall>x \<in> set t. P x" by blast
  then obtain x t' where xt: "t = x # t'" by (cases t) auto
  have "(t' @ s', c) \<in> set (rmatch n r s c)"
    using mem_single[OF assms, of "t' @ s'" c n s c] t xt by simp
  moreover have "(s', c') \<in> set (rmatch n (Rep False r) (t' @ s') c)"
    using mem_Rep_single[OF assms, of s' c' n False "t' @ s'" c] t xt by auto
  ultimately show "(s', c') \<in> set (rmatch n (PlusLazy r) s c)"
    unfolding PlusLazy_def mem_Cat by blast
qed

lemma mem_Bol: "(s', c') \<in> set (rmatch n Bol s c) \<longleftrightarrow> s' = s \<and> c' = c \<and> length s = n"
  by auto

lemma mem_Eol: "(s', c') \<in> set (rmatch n Eol s c) \<longleftrightarrow> s' = s \<and> c' = c \<and> s = []"
  by auto

declare rmatch.simps [simp del]

text \<open>Every way in which \<^const>\<open>basename_and_extname_regex\<close> matches a file name splits the
  whole name into a non-empty base name and either nothing or an extension: a dot
  followed by one or more code units other than the dot.\<close>

lemma mem_basename_and_extname:
  "(rest, caps) \<in> set (rmatch (length f) basename_and_extname_regex f []) \<longleftrightarrow>
     rest = [] \<and>
     (\<exists>b. b \<noteq> [] \<and> (\<forall>x \<in> set b. x \<notin> set line_terminators) \<and>
        ((f = b \<and> caps = [(''basename'', b)]) \<or>
         (\<exists>e. e \<noteq> [] \<and> CHR ''.'' \<notin> set e \<and> f = b @ CHR ''.'' # e \<and>
              caps = [(''ext'', CHR ''.'' # e), (''basename'', b)])))"
  (is "?L \<longleftrightarrow> ?R")
proof
  assume ?L
  then obtain s1 c1 where
    g1: "(s1, c1) \<in> set (rmatch (length f) (Grp ''basename'' (PlusLazy AnyChar)) f [])" and
    r1: "(rest, caps) \<in> set (rmatch (length f)
            (Cat (Opt (Grp ''ext'' (Cat (Lit ''.'') (Plus (NoneOf ''.''))))) Eol) s1 c1)"
    unfolding basename_and_extname_regex_def mem_Cat mem_Bol by blast
  from g1 obtain b where b: "b \<noteq> []" "f = b @ s1" "\<forall>x \<in> set b. x \<notin> set line_terminators"
    and c1: "c1 = [(''basename'', take (length f - length s1) f)]"
    unfolding mem_Grp mem_PlusLazy_single[OF single_AnyChar] by blast
  have c1': "c1 = [(''basename'', b)]" using b(2) c1 by simp
  from r1 obtain s2 c2 where
    o: "(s2, c2) \<in> set (rmatch (length f) (Opt (Grp ''ext'' (Cat (Lit ''.'') (Plus (NoneOf ''.''))))) s1 c1)"
    and e: "(rest, caps) \<in> set (rmatch (length f) Eol s2 c2)"
    unfolding mem_Cat by blast
  from e have fin: "rest = []" "s2 = []" "caps = c2" unfolding mem_Eol by auto
  from o have "((s2, c2) \<in> set (rmatch (length f) (Grp ''ext'' (Cat (Lit ''.'') (Plus (NoneOf ''.'')))) s1 c1)
       \<and> length s2 < length s1) \<or> (s2, c2) = (s1, c1)"
    by (simp only: mem_Opt)
  then show ?R
  proof (elim disjE conjE)
    assume ext: "(s2, c2) \<in> set (rmatch (length f) (Grp ''ext'' (Cat (Lit ''.'') (Plus (NoneOf ''.'')))) s1 c1)"
    then obtain s3 c3 c4 where
      l: "(s3, c3) \<in> set (rmatch (length f) (Lit ''.'') s1 c1)" and
      p: "(s2, c4) \<in> set (rmatch (length f) (Plus (NoneOf ''.'')) s3 c3)" and
      c2': "c2 = (''ext'', take (length s1 - length s2) s1) # c4"
      unfolding mem_Grp mem_Cat by blast
    from l have c3: "c3 = c1" unfolding mem_Lit by simp
    from l have s1: "s1 = CHR ''.'' # s3" unfolding mem_Lit by simp
    from p obtain t where t: "t \<noteq> []" "s3 = t @ s2" "\<forall>x \<in> set t. x \<notin> set ''.''"
      and c4: "c4 = c3"
      unfolding mem_Plus_single[OF single_NoneOf] by blast
    have c2: "c2 = (''ext'', take (length s1 - length s2) s1) # c1"
      using c2' c4 c3 by simp
    have "f = b @ CHR ''.'' # t" using b(2) s1 t(2) fin(2) by simp
    moreover have "caps = [(''ext'', CHR ''.'' # t), (''basename'', b)]"
      using c2 c1' s1 t(2) fin by simp
    moreover have "CHR ''.'' \<notin> set t" using t(3) by auto
    ultimately show ?R using b(1,3) t(1) fin(1) by blast
  next
    assume "(s2, c2) = (s1, c1)"
    then have "f = b" "caps = [(''basename'', b)]" using b(2) fin c1' by simp_all
    then show ?R using b(1,3) fin(1) by blast
  qed
next
  assume ?R
  then obtain b where rest: "rest = []" and b: "b \<noteq> []" "\<forall>x \<in> set b. x \<notin> set line_terminators"
    and alt: "(f = b \<and> caps = [(''basename'', b)]) \<or>
         (\<exists>e. e \<noteq> [] \<and> CHR ''.'' \<notin> set e \<and> f = b @ CHR ''.'' # e \<and>
              caps = [(''ext'', CHR ''.'' # e), (''basename'', b)])"
    by blast
  from alt show ?L
  proof
    assume a: "f = b \<and> caps = [(''basename'', b)]"
    have "([], [(''basename'', b)]) \<in> set (rmatch (length f) (Grp ''basename'' (PlusLazy AnyChar)) f [])"
      unfolding mem_Grp mem_PlusLazy_single[OF single_AnyChar] using a b by simp
    moreover have "([], [(''basename'', b)]) \<in> set (rmatch (length f)
            (Cat (Opt (Grp ''ext'' (Cat (Lit ''.'') (Plus (NoneOf ''.''))))) Eol) [] [(''basename'', b)])"
      unfolding mem_Cat mem_Opt mem_Eol by simp
    ultimately show ?L
      unfolding basename_and_extname_regex_def mem_Cat[of _ _ _ Bol] mem_Bol
      using a rest mem_Cat[of rest caps "length f" "Grp ''basename'' (PlusLazy AnyChar)"] by blast
  next
    assume "\<exists>e. e \<noteq> [] \<and> CHR ''.'' \<notin> set e \<and> f = b @ CHR ''.'' # e \<and>
              caps = [(''ext'', CHR ''.'' # e), (''basename'', b)]"
    then obtain e where e: "e \<noteq> []" "CHR ''.'' \<notin> set e" "f = b @ CHR ''.'' # e"
      "caps = [(''ext'', CHR ''.'' # e), (''basename'', b)]" by blast
    have 1: "(CHR ''.'' # e, [(''basename'', b)]) \<in>
        set (rmatch (length f) (Grp ''basename'' (PlusLazy AnyChar)) f [])"
      unfolding mem_Grp mem_PlusLazy_single[OF single_AnyChar] using e b by simp
    have "([], [(''basename'', b)]) \<in> set (rmatch (length f) (Cat (Lit ''.'') (Plus (NoneOf ''.'')))
               (CHR ''.'' # e) [(''basename'', b)])"
      unfolding mem_Cat mem_Lit mem_Plus_single[OF single_NoneOf] using e by auto
    then have "([], caps) \<in> set (rmatch (length f) (Grp ''ext'' (Cat (Lit ''.'') (Plus (NoneOf ''.''))))
               (CHR ''.'' # e) [(''basename'', b)])"
      unfolding mem_Grp using e(4) by simp
    then have "([], caps) \<in> set (rmatch (length f)
            (Cat (Opt (Grp ''ext'' (Cat (Lit ''.'') (Plus (NoneOf ''.''))))) Eol)
            (CHR ''.'' # e) [(''basename'', b)])"
      unfolding mem_Cat[of _ _ _ "Opt _"] mem_Opt mem_Eol by simp
    with 1 show ?L
      unfolding basename_and_extname_regex_def mem_Cat[of _ _ _ Bol] mem_Bol
      using rest mem_Cat[of rest caps "length f" "Grp ''basename'' (PlusLazy AnyChar)"] by blast
  qed
qed


lemma regex_exec_Bol:
  "regex_exec (Cat Bol r) f =
     (case rmatch (length f) (Cat Bol r) f [] of
        [] \<Rightarrow> None
      | (rest, c) # _ \<Rightarrow>
          Some \<lparr>index = 0, matched = take (length f - length rest) f, groups = c\<rparr>)"
proof (cases f)
  case Nil
  then show ?thesis by (simp add: regex_exec_def split: list.splits)
next
  case (Cons x xs)
  have "exec_scan (length f) (Cat Bol r) xs = None"
    by (rule exec_scan_Bol_later) (simp add: Cons)
  then show ?thesis using Cons by (simp add: regex_exec_def split: list.splits)
qed

text \<open>What \<^const>\<open>parseBasenameAndExtname_FromFilename\<close> returns: two empty strings when the
  pattern does not match, and otherwise a split of the file name.\<close>

lemma parseBasenameAndExtname_cases:
  "(rmatch (length f) basename_and_extname_regex f [] = [] \<and>
      parseBasenameAndExtname_FromFilename f = ([], [])) \<or>
   (\<exists>b e. parseBasenameAndExtname_FromFilename f = (b, e) \<and> b @ e = f \<and> b \<noteq> [] \<and>
      (e = [] \<or> (\<exists>e'. e = CHR ''.'' # e' \<and> e' \<noteq> [] \<and> CHR ''.'' \<notin> set e')))"
proof (cases "rmatch (length f) basename_and_extname_regex f []")
  case Nil
  then have "regex_exec basename_and_extname_regex f = None"
    using regex_exec_Bol[of _ f] by (simp add: basename_and_extname_regex_def)
  then show ?thesis using Nil by (simp add: parseBasenameAndExtname_FromFilename_def exec_groups_def)
next
  case (Cons m ms)
  obtain rest caps where m: "m = (rest, caps)" by (cases m)
  have ex: "regex_exec basename_and_extname_regex f =
      Some \<lparr>index = 0, matched = take (length f - length rest) f, groups = caps\<rparr>"
    using regex_exec_Bol[of _ f] Cons m by (simp add: basename_and_extname_regex_def)
  have "(rest, caps) \<in> set (rmatch (length f) basename_and_extname_regex f [])"
    using Cons m by simp
  then obtain b where b: "b \<noteq> []" and
    alt: "(f = b \<and> caps = [(''basename'', b)]) \<or>
         (\<exists>e. e \<noteq> [] \<and> CHR ''.'' \<notin> set e \<and> f = b @ CHR ''.'' # e \<and>
              caps = [(''ext'', CHR ''.'' # e), (''basename'', b)])"
    unfolding mem_basename_and_extname by blast
  from alt show ?thesis
  proof
    assume "f = b \<and> caps = [(''basename'', b)]"
    then have "parseBasenameAndExtname_FromFilename f = (b, []) \<and> b @ [] = f"
      using ex by (simp add: parseBasenameAndExtname_FromFilename_def exec_groups_def)
    then show ?thesis using b by blast
  next
    assume "\<exists>e. e \<noteq> [] \<and> CHR ''.'' \<notin> set e \<and> f = b @ CHR ''.'' # e \<and>
              caps = [(''ext'', CHR ''.'' # e), (''basename'', b)]"
    then obtain e where e: "e \<noteq> []" "CHR ''.'' \<notin> set e" "f = b @ CHR ''.'' # e"
      "caps = [(''ext'', CHR ''.'' # e), (''basename'', b)]" by blast
    then have "parseBasenameAndExtname_FromFilename f = (b, CHR ''.'' # e) \<and> b @ CHR ''.'' # e = f"
      using ex by (simp add: parseBasenameAndExtname_FromFilename_def exec_groups_def)
    then show ?thesis using b e(1,2) by blast
  qed
qed

lemma basename_and_extname_matches:
  assumes "f \<noteq> []" and "\<forall>x \<in> set f. x \<notin> set line_terminators"
  shows "rmatch (length f) basename_and_extname_regex f [] \<noteq> []"
proof -
  have "([], [(''basename'', f)]) \<in> set (rmatch (length f) basename_and_extname_regex f [])"
    unfolding mem_basename_and_extname using assms by blast
  then show ?thesis by auto
qed

lemma basename_extname_join:
  assumes "\<forall>x \<in> set f. x \<notin> set line_terminators"
  shows "fst (parseBasenameAndExtname_FromFilename f) @ snd (parseBasenameAndExtname_FromFilename f) = f"
proof (cases "f = []")
  case True
  have "rmatch (length f) basename_and_extname_regex f [] = []"
  proof (rule ccontr)
    assume "rmatch (length f) basename_and_extname_regex f [] \<noteq> []"
    then obtain rest caps where
      "(rest, caps) \<in> set (rmatch (length f) basename_and_extname_regex f [])"
      by (cases "rmatch (length f) basename_and_extname_regex f []") auto
    then show False unfolding mem_basename_and_extname using True by auto
  qed
  then show ?thesis
    using parseBasenameAndExtname_cases[of f] True by auto
next
  case False
  from basename_and_extname_matches[OF False assms] parseBasenameAndExtname_cases[of f]
  show ?thesis by auto
qed

lemma extname_without_dot:
  assumes "CHR ''.'' \<notin> set f"
  shows "snd (parseBasenameAndExtname_FromFilename f) = []"
  using parseBasenameAndExtname_cases[of f] assms by auto

section \<open>parseFilepathInfo\<close>

lemma dir_part_last_segment: "dir_part s @ last_segment s = s"
proof -
  have "rev s = takeWhile (\<lambda>x. x \<noteq> CHR ''/'') (rev s) @ dropWhile (\<lambda>x. x \<noteq> CHR ''/'') (rev s)"
    by simp
  then have "s = rev (dropWhile (\<lambda>x. x \<noteq> CHR ''/'') (rev s)) @ rev (takeWhile (\<lambda>x. x \<noteq> CHR ''/'') (rev s))"
    by (metis rev_append rev_rev_ident)
  then show ?thesis unfolding dir_part_def last_segment_def by simp
qed

lemma last_segment_no_slash: "CHR ''/'' \<notin> set (last_segment s)"
  using set_takeWhileD[of "CHR ''/''" "\<lambda>x. x \<noteq> CHR ''/''" "rev s"]
  by (auto simp: last_segment_def)

lemma dirpath_eq:
  "(if length (last_segment p) > 0 then slice_to_neg p (length (last_segment p)) else p) = dir_part p"
proof -
  have "length p - length (last_segment p) = length (dir_part p)"
    using arg_cong[OF dir_part_last_segment[of p], of length] by simp
  then have "take (length p - length (last_segment p)) p = dir_part p"
    using dir_part_last_segment[of p] by (metis append_eq_conv_conj)
  moreover have "last_segment p = [] \<Longrightarrow> dir_part p = p"
    using dir_part_last_segment[of p] by simp
  ultimately show ?thesis by (simp add: slice_to_neg_def)
qed

lemma parseFilepathInfo_fields:
  "path (parseFilepathInfo fp) = normalizePath fp"
  "filename (parseFilepathInfo fp) = last_segment (normalizePath fp)"
  "dirpath (parseFilepathInfo fp) = dir_part (normalizePath fp)"
  "basename (parseFilepathInfo fp) =
     fst (parseBasenameAndExtname_FromFilename (last_segment (normalizePath fp)))"
  "extname (parseFilepathInfo fp) =
     snd (parseBasenameAndExtname_FromFilename (last_segment (normalizePath fp)))"
  using dirpath_eq[of "normalizePath fp"]
  by (simp_all add: parseFilepathInfo_def Let_def parseNormalizedUnixFilename_eq split_beta)

text \<open>A file name with a line terminator and without a dot: the dot of the pattern does
  not match the line terminator, the pattern fails, and both the base name and the
  extension are empty.\<close>

lemma basename_and_extname_no_match:
  assumes "CHR ''.'' \<notin> set f" and "\<exists>x \<in> set f. x \<in> set line_terminators"
  shows "rmatch (length f) basename_and_extname_regex f [] = []"
proof (rule ccontr)
  assume "rmatch (length f) basename_and_extname_regex f [] \<noteq> []"
  then obtain rest caps where
    "(rest, caps) \<in> set (rmatch (length f) basename_and_extname_regex f [])"
    by (cases "rmatch (length f) basename_and_extname_regex f []") auto
  then obtain b where b: "\<forall>x \<in> set b. x \<notin> set line_terminators"
    and alt: "f = b \<or> (\<exists>e. f = b @ CHR ''.'' # e)"
    unfolding mem_basename_and_extname by blast
  from alt show False
  proof
    assume "f = b"
    with b assms(2) show False by blast
  next
    assume "\<exists>e. f = b @ CHR ''.'' # e"
    then obtain e where "f = b @ CHR ''.'' # e" by blast
    then have "CHR ''.'' \<in> set f" by simp
    with assms(1) show False by blast
  qed
qed

lemma parseBasenameAndExtname_no_match:
  assumes "rmatch (length f) basename_and_extname_regex f [] = []"
  shows "parseBasenameAndExtname_FromFilename f = ([], [])"
proof -
  have "regex_exec basename_and_extname_regex f = None"
    using regex_exec_Bol[of _ f] assms by (simp add: basename_and_extname_regex_def)
  then show ?thesis by (simp add: parseBasenameAndExtname_FromFilename_def exec_groups_def)
qed

lemma parseFilepathInfo_line_terminator:
  "filename (parseFilepathInfo [CHR ''a'', CHR 0x0A, CHR ''b'']) = [CHR ''a'', CHR 0x0A, CHR ''b''] \<and>
   basename (parseFilepathInfo [CHR ''a'', CHR 0x0A, CHR ''b'']) = [] \<and>
   extname (parseFilepathInfo [CHR ''a'', CHR 0x0A, CHR ''b'']) = []"
proof -
  let ?f = "[CHR ''a'', CHR 0x0A, CHR ''b'']"
  have n: "normalizePath ?f = ?f"
    by (simp add: normalizePath_def pathToUnixPath_id)
       (simp add: normalizeUnixPath_def normalize_step_def at_last_def array_pop_def
          array_push_def array_shift_def sep_def)
  have l: "last_segment ?f = ?f" by (simp add: last_segment_def)
  have "rmatch (length ?f) basename_and_extname_regex ?f [] = []"
    by (rule basename_and_extname_no_match) (simp_all add: line_terminators_def)
  then have "parseBasenameAndExtname_FromFilename ?f = ([], [])"
    by (rule parseBasenameAndExtname_no_match)
  then show ?thesis by (simp add: parseFilepathInfo_fields n l)
qed

section \<open>Claims about parseFilepathInfo\<close>

text \<open>
  What holds of the record returned by \<open>parseFilepathInfo\<close> for every input string:
  \<open>dirpath\<close> followed by \<open>filename\<close> is \<open>path\<close> (so \<open>dirpath\<close> is the whole path when the
  file name is empty); \<open>dirpath\<close> is empty or ends with a slash; \<open>filename\<close> contains no
  slash; \<open>extname\<close> is empty, or a dot followed by one or more code units that are not
  dots; \<open>basename\<close> followed by \<open>extname\<close> is \<open>filename\<close> whenever the file name contains no
  line terminator; and \<open>extname\<close> is empty when the file name contains no dot.
\<close>

lemma parseFilepathInfo_parts:
  "dirpath (parseFilepathInfo fp) @ filename (parseFilepathInfo fp) = path (parseFilepathInfo fp) \<and>
   (dirpath (parseFilepathInfo fp) = [] \<or> suffix ''/'' (dirpath (parseFilepathInfo fp))) \<and>
   CHR ''/'' \<notin> set (filename (parseFilepathInfo fp)) \<and>
   (extname (parseFilepathInfo fp) = [] \<or>
      (\<exists>e. extname (parseFilepathInfo fp) = CHR ''.'' # e \<and> e \<noteq> [] \<and> CHR ''.'' \<notin> set e)) \<and>
   ((\<forall>x \<in> set (filename (parseFilepathInfo fp)). x \<notin> set line_terminators) \<longrightarrow>
      basename (parseFilepathInfo fp) @ extname (parseFilepathInfo fp)
        = filename (parseFilepathInfo fp)) \<and>
   (CHR ''.'' \<notin> set (filename (parseFilepathInfo fp)) \<longrightarrow> extname (parseFilepathInfo fp) = [])"
proof (intro conjI impI)
  show "dirpath (parseFilepathInfo fp) @ filename (parseFilepathInfo fp) = path (parseFilepathInfo fp)"
    by (simp add: parseFilepathInfo_fields dir_part_last_segment)
  show "dirpath (parseFilepathInfo fp) = [] \<or> suffix ''/'' (dirpath (parseFilepathInfo fp))"
    using dir_part_shape[of "CHR ''/''" "normalizePath fp"]
    by (simp add: parseFilepathInfo_fields dir_part_def)
  show "CHR ''/'' \<notin> set (filename (parseFilepathInfo fp))"
    by (simp add: parseFilepathInfo_fields last_segment_no_slash)
  show "extname (parseFilepathInfo fp) = [] \<or>
      (\<exists>e. extname (parseFilepathInfo fp) = CHR ''.'' # e \<and> e \<noteq> [] \<and> CHR ''.'' \<notin> set e)"
    using parseBasenameAndExtname_cases[of "last_segment (normalizePath fp)"]
    by (auto simp: parseFilepathInfo_fields)
  show "basename (parseFilepathInfo fp) @ extname (parseFilepathInfo fp)
        = filename (parseFilepathInfo fp)"
    if "\<forall>x \<in> set (filename (parseFilepathInfo fp)). x \<notin> set line_terminators"
    using that basename_extname_join[of "last_segment (normalizePath fp)"]
    by (simp add: parseFilepathInfo_fields)
  show "extname (parseFilepathInfo fp) = []"
    if "CHR ''.'' \<notin> set (filename (parseFilepathInfo fp))"
    using that extname_without_dot[of "last_segment (normalizePath fp)"]
    by (simp add: parseFilepathInfo_fields)
qed

text \<open>Two of the documented examples: a file name without an extension, and a file name
  whose extension is its last dot and what follows it.\<close>

lemma parseFilepathInfo_documented:
  "parseFilepathInfo (''/home'' @ [CHR 0x5C] @ ''user/docs'') =
     \<lparr>path = ''/home/user/docs'', dirpath = ''/home/user/'', dirname = ''user'',
      filename = ''docs'', basename = ''docs'', extname = []\<rparr> \<and>
   parseFilepathInfo (''C:'' @ [CHR 0x5C] @ ''home'' @ [CHR 0x5C] @ ''user/.file.tar.gz'') =
     \<lparr>path = ''C:/home/user/.file.tar.gz'', dirpath = ''C:/home/user/'', dirname = ''user'',
      filename = ''.file.tar.gz'', basename = ''.file.tar'', extname = ''.gz''\<rparr>"
  by code_simp

text \<open>
  C9. The claim that \<open>dirpath\<close> ends with a slash whenever \<open>filename\<close> is not empty, which is
  also what the documentation of \<^verbatim>\<open>FilepathInfo\<close> says of \<open>dirpath\<close> (it always has a
  trailing slash), does not hold of the code: for the path \<open>log\<close>, which has no slash, the
  file name is the whole path and \<open>dirpath\<close>, the path without its file name, is the empty
  string.
\<close>

theorem parseFilepathInfo_bare_filename:
  "parseFilepathInfo ''log'' =
     \<lparr>path = ''log'', dirpath = [], dirname = [], filename = ''log'',
      basename = ''log'', extname = []\<rparr> \<and>
   filename (parseFilepathInfo ''log'') \<noteq> [] \<and>
   \<not> suffix ''/'' (dirpath (parseFilepathInfo ''log''))"
  by code_simp

section \<open>The first match of a pattern\<close>

lemma starts_Lit: "starts (rmatch n (Lit l) (l @ s) c) (s, c)"
  by (simp add: starts_def rmatch.simps)

lemma starts_Cat:
  "starts (rmatch n a s c) (s1, c1) \<Longrightarrow> starts (rmatch n b s1 c1) x \<Longrightarrow>
   starts (rmatch n (Cat a b) s c) x"
  by (auto simp: starts_def rmatch.simps)

lemma starts_Alt1: "starts (rmatch n a s c) x \<Longrightarrow> starts (rmatch n (Alt a b) s c) x"
  by (auto simp: starts_def rmatch.simps)

lemma starts_Alt2:
  "rmatch n a s c = [] \<Longrightarrow> starts (rmatch n b s c) x \<Longrightarrow> starts (rmatch n (Alt a b) s c) x"
  by (auto simp: starts_def rmatch.simps)

lemma starts_Opt:
  "starts (rmatch n r s c) (s1, c1) \<Longrightarrow> length s1 < length s \<Longrightarrow>
   starts (rmatch n (Opt r) s c) (s1, c1)"
  by (auto simp: starts_def rmatch.simps progress_def)

lemma starts_Opt_skip:
  "rmatch n r s c = [] \<Longrightarrow> starts (rmatch n (Opt r) s c) (s, c)"
  by (auto simp: starts_def rmatch.simps progress_def)

lemma starts_Grp:
  "starts (rmatch n r s c) (s1, c1) \<Longrightarrow>
   starts (rmatch n (Grp nm r) s c) (s1, (nm, take (length s - length s1) s) # c1)"
  by (auto simp: starts_def rmatch.simps)

lemma starts_Bol: "length s = n \<Longrightarrow> starts (rmatch n Bol s c) (s, c)"
  by (simp add: starts_def rmatch.simps)

lemma starts_Eol: "starts (rmatch n Eol [] c) ([], c)"
  by (simp add: starts_def rmatch.simps)

lemma starts_suffixes_while: "starts (suffixes_while P s) (dropWhile P s)"
  using hd_suffixes_while[of P s] suffixes_while_not_Nil[of P s]
  by (cases "suffixes_while P s") (auto simp: starts_def)

lemma dropWhile_run:
  "list_all P t \<Longrightarrow> s = [] \<or> \<not> P (hd s) \<Longrightarrow> dropWhile P (t @ s) = s"
proof (induction t)
  case Nil
  then show ?case by (cases s) auto
next
  case (Cons a t)
  then show ?case by simp
qed

text \<open>A greedy repetition of a one-code-unit pattern first offers the whole run.\<close>

lemma starts_Rep_single:
  assumes "single r P" and "list_all P t" and "s = [] \<or> \<not> P (hd s)"
  shows "starts (rmatch n (Rep True r) (t @ s) c) (s, c)"
proof -
  have "starts (suffixes_while P (t @ s)) s"
    using starts_suffixes_while[of P "t @ s"] dropWhile_run[OF assms(2,3)] by simp
  then show ?thesis
    by (auto simp: rmatch_Rep_single[OF assms(1)] starts_def)
qed

lemma starts_Plus_single:
  assumes "single r P" and "t \<noteq> []" and "list_all P t" and "s = [] \<or> \<not> P (hd s)"
  shows "starts (rmatch n (Plus r) (t @ s) c) (s, c)"
proof -
  obtain x t' where t: "t = x # t'" using assms(2) by (cases t) auto
  have "rmatch n r (t @ s) c = [(t' @ s, c)]"
    using assms(1,3) t by (simp add: single_def)
  then have "starts (rmatch n r (t @ s) c) (t' @ s, c)" by (simp add: starts_def)
  moreover have "starts (rmatch n (Rep True r) (t' @ s) c) (s, c)"
    using starts_Rep_single[OF assms(1) _ assms(4)] assms(3) t by simp
  ultimately show ?thesis unfolding Plus_def by (rule starts_Cat)
qed


lemma rmatch_Lit_Cat_fail: "\<not> prefix l s \<Longrightarrow> rmatch n (Cat (Lit l) r) s c = []"
  by (simp add: rmatch.simps)

section \<open>The first match of the package pattern\<close>

lemma starts_version:
  assumes "case vo of None \<Rightarrow> True
           | Some v \<Rightarrow> v \<noteq> [] \<and> list_all (\<lambda>x. x \<notin> set (CHR ''/'' # whitespace)) v"
    and "t = [] \<or> hd t = CHR ''/''"
  shows "starts (rmatch n (Opt (Cat (Lit ''@'')
                  (Grp ''version'' (Plus (NoneOf (CHR ''/'' # whitespace))))))
            ((case vo of None \<Rightarrow> [] | Some v \<Rightarrow> CHR ''@'' # v) @ t) c)
          (t, (case vo of None \<Rightarrow> [] | Some v \<Rightarrow> [(''version'', v)]) @ c)"
proof (cases vo)
  case None
  have "\<not> prefix ''@'' t" using assms(2) by (cases t) auto
  then show ?thesis using None by (simp add: starts_Opt_skip rmatch_Lit_Cat_fail)
next
  case (Some v)
  have t: "t = [] \<or> \<not> (hd t \<notin> set (CHR ''/'' # whitespace))" using assms(2) by auto
  have v: "v \<noteq> []" "list_all (\<lambda>x. x \<notin> set (CHR ''/'' # whitespace)) v"
    using assms(1) Some by simp_all
  have "starts (rmatch n (Plus (NoneOf (CHR ''/'' # whitespace))) (v @ t) c) (t, c)"
    by (rule starts_Plus_single[OF single_NoneOf v t])
  then have "starts (rmatch n (Grp ''version'' (Plus (NoneOf (CHR ''/'' # whitespace)))) (v @ t) c)
       (t, (''version'', take (length (v @ t) - length t) (v @ t)) # c)"
    by (rule starts_Grp)
  then have g: "starts (rmatch n (Grp ''version'' (Plus (NoneOf (CHR ''/'' # whitespace)))) (v @ t) c)
       (t, (''version'', v) # c)" by simp
  have "starts (rmatch n (Cat (Lit ''@'') (Grp ''version'' (Plus (NoneOf (CHR ''/'' # whitespace)))))
          (''@'' @ v @ t) c) (t, (''version'', v) # c)"
    by (rule starts_Cat[OF starts_Lit g])
  then have "starts (rmatch n (Opt (Cat (Lit ''@'') (Grp ''version'' (Plus (NoneOf (CHR ''/'' # whitespace))))))
          (''@'' @ v @ t) c) (t, (''version'', v) # c)"
    by (rule starts_Opt) simp
  then show ?thesis using Some by simp
qed

lemma starts_pkg:
  assumes "pk \<noteq> []" and "list_all (\<lambda>x. x \<notin> set (CHR ''@'' # CHR ''/'' # whitespace)) pk"
    and "t = [] \<or> hd t = CHR ''/'' \<or> hd t = CHR ''@''"
  shows "starts (rmatch n (Grp ''pkg'' (Plus (NoneOf (CHR ''@'' # CHR ''/'' # whitespace)))) (pk @ t) c)
          (t, (''pkg'', pk) # c)"
proof -
  have t: "t = [] \<or> \<not> (hd t \<notin> set (CHR ''@'' # CHR ''/'' # whitespace))" using assms(3) by auto
  have "starts (rmatch n (Plus (NoneOf (CHR ''@'' # CHR ''/'' # whitespace))) (pk @ t) c) (t, c)"
    by (rule starts_Plus_single[OF single_NoneOf assms(1,2) t])
  then have "starts (rmatch n (Grp ''pkg'' (Plus (NoneOf (CHR ''@'' # CHR ''/'' # whitespace)))) (pk @ t) c)
       (t, (''pkg'', take (length (pk @ t) - length t) (pk @ t)) # c)"
    by (rule starts_Grp)
  then show ?thesis by simp
qed

lemma starts_scope:
  assumes "case so of None \<Rightarrow> True
           | Some sc \<Rightarrow> sc \<noteq> [] \<and> list_all (\<lambda>x. x \<notin> set (CHR ''/'' # whitespace)) sc"
    and "t \<noteq> []" and "hd t \<noteq> CHR ''@''"
  shows "starts (rmatch n (Opt (Cat (Lit ''@'')
                  (Cat (Grp ''scope'' (Plus (NoneOf (CHR ''/'' # whitespace)))) (Lit ''/''))))
            ((case so of None \<Rightarrow> [] | Some sc \<Rightarrow> CHR ''@'' # sc @ ''/'') @ t) c)
          (t, (case so of None \<Rightarrow> [] | Some sc \<Rightarrow> [(''scope'', sc)]) @ c)"
proof (cases so)
  case None
  have "\<not> prefix ''@'' t" using assms(2,3) by (cases t) auto
  then show ?thesis using None by (simp add: starts_Opt_skip rmatch_Lit_Cat_fail)
next
  case (Some sc)
  have sc: "sc \<noteq> []" "list_all (\<lambda>x. x \<notin> set (CHR ''/'' # whitespace)) sc"
    using assms(1) Some by simp_all
  have u: "''/'' @ t = [] \<or> \<not> (hd (''/'' @ t) \<notin> set (CHR ''/'' # whitespace))" by simp
  have "starts (rmatch n (Plus (NoneOf (CHR ''/'' # whitespace))) (sc @ ''/'' @ t) c) (''/'' @ t, c)"
    by (rule starts_Plus_single[OF single_NoneOf sc u])
  then have "starts (rmatch n (Grp ''scope'' (Plus (NoneOf (CHR ''/'' # whitespace)))) (sc @ ''/'' @ t) c)
       (''/'' @ t, (''scope'', take (length (sc @ ''/'' @ t) - length (''/'' @ t)) (sc @ ''/'' @ t)) # c)"
    by (rule starts_Grp)
  then have g: "starts (rmatch n (Grp ''scope'' (Plus (NoneOf (CHR ''/'' # whitespace)))) (sc @ ''/'' @ t) c)
       (''/'' @ t, (''scope'', sc) # c)" by simp
  have "starts (rmatch n (Cat (Grp ''scope'' (Plus (NoneOf (CHR ''/'' # whitespace)))) (Lit ''/''))
          (sc @ ''/'' @ t) c) (t, (''scope'', sc) # c)"
    by (rule starts_Cat[OF g starts_Lit])
  then have "starts (rmatch n (Cat (Lit ''@'')
        (Cat (Grp ''scope'' (Plus (NoneOf (CHR ''/'' # whitespace)))) (Lit ''/'')))
          (''@'' @ sc @ ''/'' @ t) c) (t, (''scope'', sc) # c)"
    by (rule starts_Cat[OF starts_Lit])
  then have "starts (rmatch n (Opt (Cat (Lit ''@'')
        (Cat (Grp ''scope'' (Plus (NoneOf (CHR ''/'' # whitespace)))) (Lit ''/''))))
          (''@'' @ sc @ ''/'' @ t) c) (t, (''scope'', sc) # c)"
    by (rule starts_Opt) simp
  then show ?thesis using Some by simp
qed

lemma starts_pathname:
  assumes "case po of None \<Rightarrow> True | Some r \<Rightarrow> list_all (\<lambda>x. x \<notin> set line_terminators) r"
  shows "starts (rmatch n (Cat (Opt (Grp ''pathname'' (Cat (Lit ''/'') (Rep True AnyChar)))) Eol)
            (case po of None \<Rightarrow> [] | Some r \<Rightarrow> CHR ''/'' # r) c)
          ([], (case po of None \<Rightarrow> [] | Some r \<Rightarrow> [(''pathname'', CHR ''/'' # r)]) @ c)"
proof (cases po)
  case None
  have "rmatch n (Grp ''pathname'' (Cat (Lit ''/'') (Rep True AnyChar))) [] c = []"
    by (simp add: rmatch.simps)
  then have "starts (rmatch n (Opt (Grp ''pathname'' (Cat (Lit ''/'') (Rep True AnyChar)))) [] c) ([], c)"
    by (rule starts_Opt_skip)
  then show ?thesis using None starts_Cat[OF _ starts_Eol] by simp
next
  case (Some r)
  have r: "list_all (\<lambda>x. x \<notin> set line_terminators) r" using assms Some by simp
  have "starts (rmatch n (Rep True AnyChar) (r @ []) c) ([], c)"
    by (rule starts_Rep_single[OF single_AnyChar r]) simp
  then have a: "starts (rmatch n (Rep True AnyChar) r c) ([], c)" by simp
  have "starts (rmatch n (Cat (Lit ''/'') (Rep True AnyChar)) (''/'' @ r) c) ([], c)"
    by (rule starts_Cat[OF starts_Lit a])
  then have "starts (rmatch n (Grp ''pathname'' (Cat (Lit ''/'') (Rep True AnyChar))) (''/'' @ r) c)
      ([], (''pathname'', take (length (''/'' @ r) - length ([]::string)) (''/'' @ r)) # c)"
    by (rule starts_Grp)
  then have "starts (rmatch n (Grp ''pathname'' (Cat (Lit ''/'') (Rep True AnyChar))) (''/'' @ r) c)
      ([], (''pathname'', CHR ''/'' # r) # c)" by simp
  then have "starts (rmatch n (Opt (Grp ''pathname'' (Cat (Lit ''/'') (Rep True AnyChar)))) (''/'' @ r) c)
      ([], (''pathname'', CHR ''/'' # r) # c)"
    by (rule starts_Opt) simp
  then show ?thesis using Some starts_Cat[OF _ starts_Eol] by simp
qed


lemma starts_protocol:
  assumes "proto = ''npm:'' \<or> proto = ''jsr:''"
  shows "starts (rmatch n (Grp ''protocol'' (Alt (Lit ''npm:'') (Lit ''jsr:''))) (proto @ t) c)
          (t, (''protocol'', proto) # c)"
proof -
  have "starts (rmatch n (Alt (Lit ''npm:'') (Lit ''jsr:'')) (proto @ t) c) (t, c)"
    using assms
  proof
    assume "proto = ''npm:''"
    then show ?thesis using starts_Alt1[OF starts_Lit] by blast
  next
    assume p: "proto = ''jsr:''"
    have "rmatch n (Lit ''npm:'') (''jsr:'' @ t) c = []" by (simp add: rmatch.simps)
    then show ?thesis using starts_Alt2[OF _ starts_Lit] p by blast
  qed
  then have "starts (rmatch n (Grp ''protocol'' (Alt (Lit ''npm:'') (Lit ''jsr:''))) (proto @ t) c)
          (t, (''protocol'', take (length (proto @ t) - length t) (proto @ t)) # c)"
    by (rule starts_Grp)
  then show ?thesis by simp
qed

text \<open>On a specifier of the right shape the first match of \<^const>\<open>package_regex\<close> captures
  the parts of the specifier.\<close>

lemma package_regex_first_match:
  assumes proto: "proto = ''npm:'' \<or> proto = ''jsr:''" and ok: "parts_ok q"
  shows "starts (rmatch (length (proto @ parts_tail q)) package_regex (proto @ parts_tail q) [])
           ([], parts_caps proto q)"
proof -
  define n where "n = length (proto @ parts_tail q)"
  let ?pn = "case p_path q of None \<Rightarrow> [] | Some r \<Rightarrow> CHR ''/'' # r"
  let ?pnc = "case p_path q of None \<Rightarrow> [] | Some r \<Rightarrow> [(''pathname'', CHR ''/'' # r)]"
  let ?ver = "case p_version q of None \<Rightarrow> [] | Some v \<Rightarrow> CHR ''@'' # v"
  let ?verc = "case p_version q of None \<Rightarrow> [] | Some v \<Rightarrow> [(''version'', v)]"
  let ?sc = "case p_scope q of None \<Rightarrow> [] | Some s \<Rightarrow> CHR ''@'' # s @ ''/''"
  let ?scc = "case p_scope q of None \<Rightarrow> [] | Some s \<Rightarrow> [(''scope'', s)]"
  let ?c0 = "[(''protocol'', proto)]"
  let ?OVER = "Opt (Cat (Lit ''@'') (Grp ''version'' (Plus (NoneOf (CHR ''/'' # whitespace)))))"
  let ?PKG = "Grp ''pkg'' (Plus (NoneOf (CHR ''@'' # CHR ''/'' # whitespace)))"
  let ?OSC = "Opt (Cat (Lit ''@'')
                  (Cat (Grp ''scope'' (Plus (NoneOf (CHR ''/'' # whitespace)))) (Lit ''/'')))"
  let ?K2 = "Cat (Opt (Grp ''pathname'' (Cat (Lit ''/'') (Rep True AnyChar)))) Eol"
  have pk: "p_pkg q \<noteq> []" "list_all (\<lambda>x. x \<notin> set (CHR ''@'' # CHR ''/'' # whitespace)) (p_pkg q)"
    using ok by (simp_all add: parts_ok_def)
  have pn_hd: "?pn = [] \<or> hd ?pn = CHR ''/''" by (simp split: option.splits)
  have ver_hd: "?ver @ ?pn = [] \<or> hd (?ver @ ?pn) = CHR ''/'' \<or> hd (?ver @ ?pn) = CHR ''@''"
    by (simp split: option.splits)
  have pk_hd: "p_pkg q @ ?ver @ ?pn \<noteq> []" "hd (p_pkg q @ ?ver @ ?pn) \<noteq> CHR ''@''"
    "hd (p_pkg q @ ?ver @ ?pn) \<noteq> CHR ''/''"
    using pk by (cases "p_pkg q"; simp)+
  have sc_hd: "?sc @ p_pkg q @ ?ver @ ?pn = [] \<or> \<not> (hd (?sc @ p_pkg q @ ?ver @ ?pn) = CHR ''/'')"
    using pk_hd(3) by (cases "p_scope q") simp_all
  have k2: "starts (rmatch n ?K2 ?pn (?verc @ (''pkg'', p_pkg q) # ?scc @ ?c0))
              ([], ?pnc @ ?verc @ (''pkg'', p_pkg q) # ?scc @ ?c0)"
    by (rule starts_pathname) (use ok in \<open>simp add: parts_ok_def\<close>)
  have ver: "starts (rmatch n ?OVER (?ver @ ?pn) ((''pkg'', p_pkg q) # ?scc @ ?c0))
              (?pn, ?verc @ (''pkg'', p_pkg q) # ?scc @ ?c0)"
    by (rule starts_version[OF _ pn_hd]) (use ok in \<open>simp add: parts_ok_def\<close>)
  have pkg: "starts (rmatch n ?PKG (p_pkg q @ ?ver @ ?pn) (?scc @ ?c0))
              (?ver @ ?pn, (''pkg'', p_pkg q) # ?scc @ ?c0)"
    by (rule starts_pkg[OF pk ver_hd])
  have sc: "starts (rmatch n ?OSC (?sc @ p_pkg q @ ?ver @ ?pn) ?c0)
              (p_pkg q @ ?ver @ ?pn, ?scc @ ?c0)"
    by (rule starts_scope[OF _ pk_hd(1,2)]) (use ok in \<open>simp add: parts_ok_def\<close>)
  have sl: "starts (rmatch n (Rep True (Lit ''/''))
                (replicate (p_slashes q) (CHR ''/'') @ ?sc @ p_pkg q @ ?ver @ ?pn) ?c0)
              (?sc @ p_pkg q @ ?ver @ ?pn, ?c0)"
    by (rule starts_Rep_single[OF single_Lit _ sc_hd]) (simp add: list_all_iff)
  have g2: "starts (rmatch n (Cat (Rep True (Lit ''/'')) (Cat ?OSC (Cat ?PKG ?OVER)))
                (parts_tail q) ?c0)
              (?pn, ?verc @ (''pkg'', p_pkg q) # ?scc @ ?c0)"
    unfolding parts_tail_def
    by (rule starts_Cat[OF sl starts_Cat[OF sc starts_Cat[OF pkg ver]]])
  have len: "length ?pn < length (parts_tail q)"
    using pk(1) by (simp add: parts_tail_def)
  have og2: "starts (rmatch n (Opt (Cat (Rep True (Lit ''/'')) (Cat ?OSC (Cat ?PKG ?OVER))))
                (parts_tail q) ?c0)
              (?pn, ?verc @ (''pkg'', p_pkg q) # ?scc @ ?c0)"
    by (rule starts_Opt[OF g2 len])
  have pr: "starts (rmatch n (Grp ''protocol'' (Alt (Lit ''npm:'') (Lit ''jsr:'')))
                (proto @ parts_tail q) []) (parts_tail q, ?c0)"
    by (rule starts_protocol[OF proto])
  have bol: "starts (rmatch n Bol (proto @ parts_tail q) []) (proto @ parts_tail q, [])"
    by (rule starts_Bol) (simp add: n_def)
  have "starts (rmatch n package_regex (proto @ parts_tail q) [])
          ([], ?pnc @ ?verc @ (''pkg'', p_pkg q) # ?scc @ ?c0)"
    unfolding package_regex_def
    by (rule starts_Cat[OF bol starts_Cat[OF pr starts_Cat[OF og2 k2]]])
  then show ?thesis by (simp add: parts_caps_def n_def)
qed

section \<open>Every match of the package pattern\<close>

lemma mem_Alt:
  "x \<in> set (rmatch n (Alt a b) s c) \<longleftrightarrow> x \<in> set (rmatch n a s c) \<or> x \<in> set (rmatch n b s c)"
  by (simp add: rmatch.simps)

lemma mem_version:
  assumes "(s', c') \<in> set (rmatch n (Opt (Cat (Lit ''@'')
                  (Grp ''version'' (Plus (NoneOf (CHR ''/'' # whitespace)))))) s c)"
  shows "\<exists>vo. (case vo of None \<Rightarrow> True
               | Some v \<Rightarrow> v \<noteq> [] \<and> list_all (\<lambda>x. x \<notin> set (CHR ''/'' # whitespace)) v) \<and>
           s = (case vo of None \<Rightarrow> [] | Some v \<Rightarrow> CHR ''@'' # v) @ s' \<and>
           c' = (case vo of None \<Rightarrow> [] | Some v \<Rightarrow> [(''version'', v)]) @ c"
proof -
  from assms have "((s', c') \<in> set (rmatch n (Cat (Lit ''@'')
                  (Grp ''version'' (Plus (NoneOf (CHR ''/'' # whitespace))))) s c)
       \<and> length s' < length s) \<or> (s', c') = (s, c)"
    by (simp only: mem_Opt)
  then show ?thesis
  proof (elim disjE conjE)
    assume "(s', c') \<in> set (rmatch n (Cat (Lit ''@'')
                  (Grp ''version'' (Plus (NoneOf (CHR ''/'' # whitespace))))) s c)"
    then obtain s1 c1 c2 where
      l: "(s1, c1) \<in> set (rmatch n (Lit ''@'') s c)" and
      p: "(s', c2) \<in> set (rmatch n (Plus (NoneOf (CHR ''/'' # whitespace))) s1 c1)" and
      c': "c' = (''version'', take (length s1 - length s') s1) # c2"
      unfolding mem_Cat mem_Grp by blast
    from l have s: "s = ''@'' @ s1" and c1: "c1 = c" unfolding mem_Lit by simp_all
    from p obtain v where v: "v \<noteq> []" "s1 = v @ s'" "\<forall>x \<in> set v. x \<notin> set (CHR ''/'' # whitespace)"
      and c2: "c2 = c1"
      unfolding mem_Plus_single[OF single_NoneOf] by blast
    have "(case Some v of None \<Rightarrow> True
               | Some v \<Rightarrow> v \<noteq> [] \<and> list_all (\<lambda>x. x \<notin> set (CHR ''/'' # whitespace)) v) \<and>
           s = (case Some v of None \<Rightarrow> [] | Some v \<Rightarrow> CHR ''@'' # v) @ s' \<and>
           c' = (case Some v of None \<Rightarrow> [] | Some v \<Rightarrow> [(''version'', v)]) @ c"
      using v s c' c1 c2 by (simp add: list_all_iff)
    then show ?thesis by blast
  next
    assume "(s', c') = (s, c)"
    then have "(case None of None \<Rightarrow> True
               | Some v \<Rightarrow> v \<noteq> [] \<and> list_all (\<lambda>x. x \<notin> set (CHR ''/'' # whitespace)) v) \<and>
           s = (case None of None \<Rightarrow> [] | Some v \<Rightarrow> CHR ''@'' # v) @ s' \<and>
           c' = (case None of None \<Rightarrow> [] | Some v \<Rightarrow> [(''version'', v)]) @ c"
      by simp
    then show ?thesis by blast
  qed
qed

lemma mem_scope:
  assumes "(s', c') \<in> set (rmatch n (Opt (Cat (Lit ''@'')
                  (Cat (Grp ''scope'' (Plus (NoneOf (CHR ''/'' # whitespace)))) (Lit ''/'')))) s c)"
  shows "\<exists>so. (case so of None \<Rightarrow> True
               | Some sc \<Rightarrow> sc \<noteq> [] \<and> list_all (\<lambda>x. x \<notin> set (CHR ''/'' # whitespace)) sc) \<and>
           s = (case so of None \<Rightarrow> [] | Some sc \<Rightarrow> CHR ''@'' # sc @ ''/'') @ s' \<and>
           c' = (case so of None \<Rightarrow> [] | Some sc \<Rightarrow> [(''scope'', sc)]) @ c"
proof -
  from assms have "((s', c') \<in> set (rmatch n (Cat (Lit ''@'')
                  (Cat (Grp ''scope'' (Plus (NoneOf (CHR ''/'' # whitespace)))) (Lit ''/''))) s c)
       \<and> length s' < length s) \<or> (s', c') = (s, c)"
    by (simp only: mem_Opt)
  then show ?thesis
  proof (elim disjE conjE)
    assume "(s', c') \<in> set (rmatch n (Cat (Lit ''@'')
                  (Cat (Grp ''scope'' (Plus (NoneOf (CHR ''/'' # whitespace)))) (Lit ''/''))) s c)"
    then obtain s1 c1 s2 c2 c3 where
      l: "(s1, c1) \<in> set (rmatch n (Lit ''@'') s c)" and
      p: "(s2, c2) \<in> set (rmatch n (Plus (NoneOf (CHR ''/'' # whitespace))) s1 c1)" and
      c3: "c3 = (''scope'', take (length s1 - length s2) s1) # c2" and
      e: "(s', c') \<in> set (rmatch n (Lit ''/'') s2 c3)"
      unfolding mem_Cat mem_Grp by blast
    from l have s: "s = ''@'' @ s1" and c1: "c1 = c" unfolding mem_Lit by simp_all
    from p obtain sc where sc: "sc \<noteq> []" "s1 = sc @ s2" "\<forall>x \<in> set sc. x \<notin> set (CHR ''/'' # whitespace)"
      and c2: "c2 = c1"
      unfolding mem_Plus_single[OF single_NoneOf] by blast
    from e have s2: "s2 = ''/'' @ s'" and c': "c' = c3" unfolding mem_Lit by simp_all
    have "(case Some sc of None \<Rightarrow> True
               | Some sc \<Rightarrow> sc \<noteq> [] \<and> list_all (\<lambda>x. x \<notin> set (CHR ''/'' # whitespace)) sc) \<and>
           s = (case Some sc of None \<Rightarrow> [] | Some sc \<Rightarrow> CHR ''@'' # sc @ ''/'') @ s' \<and>
           c' = (case Some sc of None \<Rightarrow> [] | Some sc \<Rightarrow> [(''scope'', sc)]) @ c"
      using sc s s2 c' c3 c1 c2 by (simp add: list_all_iff)
    then show ?thesis by blast
  next
    assume "(s', c') = (s, c)"
    then have "(case None of None \<Rightarrow> True
               | Some sc \<Rightarrow> sc \<noteq> [] \<and> list_all (\<lambda>x. x \<notin> set (CHR ''/'' # whitespace)) sc) \<and>
           s = (case None of None \<Rightarrow> [] | Some sc \<Rightarrow> CHR ''@'' # sc @ ''/'') @ s' \<and>
           c' = (case None of None \<Rightarrow> [] | Some sc \<Rightarrow> [(''scope'', sc)]) @ c"
      by simp
    then show ?thesis by blast
  qed
qed

lemma mem_pkg:
  assumes "(s', c') \<in> set (rmatch n (Grp ''pkg''
              (Plus (NoneOf (CHR ''@'' # CHR ''/'' # whitespace)))) s c)"
  shows "\<exists>pk. pk \<noteq> [] \<and> list_all (\<lambda>x. x \<notin> set (CHR ''@'' # CHR ''/'' # whitespace)) pk \<and>
           s = pk @ s' \<and> c' = (''pkg'', pk) # c"
proof -
  from assms obtain c1 where
    p: "(s', c1) \<in> set (rmatch n (Plus (NoneOf (CHR ''@'' # CHR ''/'' # whitespace))) s c)" and
    c': "c' = (''pkg'', take (length s - length s') s) # c1"
    unfolding mem_Grp by blast
  from p obtain pk where pk: "pk \<noteq> []" "s = pk @ s'"
      "\<forall>x \<in> set pk. x \<notin> set (CHR ''@'' # CHR ''/'' # whitespace)" and c1: "c1 = c"
    unfolding mem_Plus_single[OF single_NoneOf] by blast
  have "pk \<noteq> [] \<and> list_all (\<lambda>x. x \<notin> set (CHR ''@'' # CHR ''/'' # whitespace)) pk \<and>
           s = pk @ s' \<and> c' = (''pkg'', pk) # c"
    using pk c' c1 by (simp add: list_all_iff)
  then show ?thesis by blast
qed

lemma mem_pathname:
  assumes "(s', c') \<in> set (rmatch n
      (Cat (Opt (Grp ''pathname'' (Cat (Lit ''/'') (Rep True AnyChar)))) Eol) s c)"
  shows "s' = [] \<and>
         (\<exists>po. (case po of None \<Rightarrow> True | Some r \<Rightarrow> list_all (\<lambda>x. x \<notin> set line_terminators) r) \<and>
           s = (case po of None \<Rightarrow> [] | Some r \<Rightarrow> CHR ''/'' # r) \<and>
           c' = (case po of None \<Rightarrow> [] | Some r \<Rightarrow> [(''pathname'', CHR ''/'' # r)]) @ c)"
proof -
  from assms obtain s1 c1 where
    o: "(s1, c1) \<in> set (rmatch n (Opt (Grp ''pathname'' (Cat (Lit ''/'') (Rep True AnyChar)))) s c)"
    and e: "(s', c') \<in> set (rmatch n Eol s1 c1)"
    unfolding mem_Cat by blast
  from e have fin: "s' = []" "s1 = []" "c' = c1" unfolding mem_Eol by auto
  from o have "((s1, c1) \<in> set (rmatch n (Grp ''pathname'' (Cat (Lit ''/'') (Rep True AnyChar))) s c)
       \<and> length s1 < length s) \<or> (s1, c1) = (s, c)"
    by (simp only: mem_Opt)
  then show ?thesis
  proof (elim disjE conjE)
    assume "(s1, c1) \<in> set (rmatch n (Grp ''pathname'' (Cat (Lit ''/'') (Rep True AnyChar))) s c)"
    then obtain s2 c2 c3 where
      l: "(s2, c2) \<in> set (rmatch n (Lit ''/'') s c)" and
      p: "(s1, c3) \<in> set (rmatch n (Rep True AnyChar) s2 c2)" and
      c1: "c1 = (''pathname'', take (length s - length s1) s) # c3"
      unfolding mem_Grp mem_Cat by blast
    from l have s: "s = ''/'' @ s2" and c2: "c2 = c" unfolding mem_Lit by simp_all
    from p obtain r where r: "s2 = r @ s1" "\<forall>x \<in> set r. x \<notin> set line_terminators"
      and c3: "c3 = c2"
      unfolding mem_Rep_single[OF single_AnyChar] by blast
    have "(case Some r of None \<Rightarrow> True | Some r \<Rightarrow> list_all (\<lambda>x. x \<notin> set line_terminators) r) \<and>
           s = (case Some r of None \<Rightarrow> [] | Some r \<Rightarrow> CHR ''/'' # r) \<and>
           c' = (case Some r of None \<Rightarrow> [] | Some r \<Rightarrow> [(''pathname'', CHR ''/'' # r)]) @ c"
      using r s c1 c2 c3 fin by (simp add: list_all_iff)
    then show ?thesis using fin(1) by blast
  next
    assume "(s1, c1) = (s, c)"
    then have "(case None of None \<Rightarrow> True | Some r \<Rightarrow> list_all (\<lambda>x. x \<notin> set line_terminators) r) \<and>
           s = (case None of None \<Rightarrow> [] | Some r \<Rightarrow> CHR ''/'' # r) \<and>
           c' = (case None of None \<Rightarrow> [] | Some r \<Rightarrow> [(''pathname'', CHR ''/'' # r)]) @ c"
      using fin by simp
    then show ?thesis using fin(1) by blast
  qed
qed

lemma mem_slashes:
  assumes "(s', c') \<in> set (rmatch n (Rep True (Lit ''/'')) s c)"
  shows "c' = c \<and> (\<exists>j. s = replicate j (CHR ''/'') @ s')"
proof -
  from assms obtain t where t: "c' = c" "s = t @ s'" "\<forall>x \<in> set t. x = CHR ''/''"
    unfolding mem_Rep_single[OF single_Lit] by blast
  have "t = replicate (length t) (CHR ''/'')"
    using t(3) by (simp add: replicate_length_same)
  then show ?thesis using t(1,2) by metis
qed


lemma mem_protocol:
  assumes "(s', c') \<in> set (rmatch n (Grp ''protocol'' (Alt (Lit ''npm:'') (Lit ''jsr:''))) s c)"
  shows "\<exists>proto. (proto = ''npm:'' \<or> proto = ''jsr:'') \<and> s = proto @ s' \<and>
           c' = (''protocol'', proto) # c"
proof -
  from assms obtain c1 where
    a: "(s', c1) \<in> set (rmatch n (Alt (Lit ''npm:'') (Lit ''jsr:'')) s c)" and
    c': "c' = (''protocol'', take (length s - length s') s) # c1"
    unfolding mem_Grp by blast
  from a have "(c1 = c \<and> s = ''npm:'' @ s') \<or> (c1 = c \<and> s = ''jsr:'' @ s')"
    unfolding mem_Alt mem_Lit by simp
  then show ?thesis
  proof (elim disjE conjE)
    assume "c1 = c" "s = ''npm:'' @ s'"
    then have "(''npm:'' = ''npm:'' \<or> ''npm:'' = ''jsr:'') \<and> s = ''npm:'' @ s' \<and>
           c' = (''protocol'', ''npm:'') # c" using c' by simp
    then show ?thesis by blast
  next
    assume "c1 = c" "s = ''jsr:'' @ s'"
    then have "(''jsr:'' = ''npm:'' \<or> ''jsr:'' = ''jsr:'') \<and> s = ''jsr:'' @ s' \<and>
           c' = (''protocol'', ''jsr:'') # c" using c' by simp
    then show ?thesis by blast
  qed
qed

text \<open>Every match of \<^const>\<open>package_regex\<close> either reads a specifier of the right shape and
  captures its parts, or reads the protocol and at most a path and captures no package
  name.\<close>

lemma mem_package_regex:
  assumes "(rest, caps) \<in> set (rmatch (length input) package_regex input [])"
  shows "\<exists>proto. (proto = ''npm:'' \<or> proto = ''jsr:'') \<and>
     ((\<exists>q. parts_ok q \<and> input = proto @ parts_tail q \<and> caps = parts_caps proto q) \<or>
      (\<exists>po. input = proto @ (case po of None \<Rightarrow> [] | Some r \<Rightarrow> CHR ''/'' # r) \<and>
            caps = (case po of None \<Rightarrow> [] | Some r \<Rightarrow> [(''pathname'', CHR ''/'' # r)])
                   @ [(''protocol'', proto)]))"
proof -
  let ?n = "length input"
  let ?OVER = "Opt (Cat (Lit ''@'') (Grp ''version'' (Plus (NoneOf (CHR ''/'' # whitespace)))))"
  let ?PKG = "Grp ''pkg'' (Plus (NoneOf (CHR ''@'' # CHR ''/'' # whitespace)))"
  let ?OSC = "Opt (Cat (Lit ''@'')
                  (Cat (Grp ''scope'' (Plus (NoneOf (CHR ''/'' # whitespace)))) (Lit ''/'')))"
  let ?K2 = "Cat (Opt (Grp ''pathname'' (Cat (Lit ''/'') (Rep True AnyChar)))) Eol"
  let ?G2 = "Cat (Rep True (Lit ''/'')) (Cat ?OSC (Cat ?PKG ?OVER))"
  from assms obtain s1 c1 s2 c2 where
    pr: "(s1, c1) \<in> set (rmatch ?n (Grp ''protocol'' (Alt (Lit ''npm:'') (Lit ''jsr:''))) input [])" and
    og: "(s2, c2) \<in> set (rmatch ?n (Opt ?G2) s1 c1)" and
    k2: "(rest, caps) \<in> set (rmatch ?n ?K2 s2 c2)"
    unfolding package_regex_def mem_Cat mem_Bol by blast
  from mem_protocol[OF pr] obtain proto where
    proto: "proto = ''npm:'' \<or> proto = ''jsr:''" and inp: "input = proto @ s1"
    and c1: "c1 = [(''protocol'', proto)]" by blast
  from mem_pathname[OF k2] obtain po where
    po: "case po of None \<Rightarrow> True | Some r \<Rightarrow> list_all (\<lambda>x. x \<notin> set line_terminators) r"
    and s2: "s2 = (case po of None \<Rightarrow> [] | Some r \<Rightarrow> CHR ''/'' # r)"
    and caps: "caps = (case po of None \<Rightarrow> [] | Some r \<Rightarrow> [(''pathname'', CHR ''/'' # r)]) @ c2"
    by blast
  from og have "((s2, c2) \<in> set (rmatch ?n ?G2 s1 c1) \<and> length s2 < length s1) \<or> (s2, c2) = (s1, c1)"
    by (simp only: mem_Opt)
  then show ?thesis
  proof (elim disjE conjE)
    assume "(s2, c2) \<in> set (rmatch ?n ?G2 s1 c1)"
    then obtain sa ca sb cb sc cc where
      sl: "(sa, ca) \<in> set (rmatch ?n (Rep True (Lit ''/'')) s1 c1)" and
      os: "(sb, cb) \<in> set (rmatch ?n ?OSC sa ca)" and
      pk: "(sc, cc) \<in> set (rmatch ?n ?PKG sb cb)" and
      ov: "(s2, c2) \<in> set (rmatch ?n ?OVER sc cc)"
      unfolding mem_Cat by blast
    from mem_slashes[OF sl] obtain j where j: "ca = c1" "s1 = replicate j (CHR ''/'') @ sa" by blast
    from mem_scope[OF os] obtain so where
      so: "case so of None \<Rightarrow> True
           | Some sc \<Rightarrow> sc \<noteq> [] \<and> list_all (\<lambda>x. x \<notin> set (CHR ''/'' # whitespace)) sc"
      and sa: "sa = (case so of None \<Rightarrow> [] | Some sc \<Rightarrow> CHR ''@'' # sc @ ''/'') @ sb"
      and cb: "cb = (case so of None \<Rightarrow> [] | Some sc \<Rightarrow> [(''scope'', sc)]) @ ca" by blast
    from mem_pkg[OF pk] obtain pkn where
      pkn: "pkn \<noteq> []" "list_all (\<lambda>x. x \<notin> set (CHR ''@'' # CHR ''/'' # whitespace)) pkn"
      and sb: "sb = pkn @ sc" and cc: "cc = (''pkg'', pkn) # cb" by blast
    from mem_version[OF ov] obtain vo where
      vo: "case vo of None \<Rightarrow> True
           | Some v \<Rightarrow> v \<noteq> [] \<and> list_all (\<lambda>x. x \<notin> set (CHR ''/'' # whitespace)) v"
      and sc: "sc = (case vo of None \<Rightarrow> [] | Some v \<Rightarrow> CHR ''@'' # v) @ s2"
      and c2: "c2 = (case vo of None \<Rightarrow> [] | Some v \<Rightarrow> [(''version'', v)]) @ cc" by blast
    let ?q = "\<lparr>p_slashes = j, p_scope = so, p_pkg = pkn, p_version = vo, p_path = po\<rparr>"
    have "parts_ok ?q" using so pkn vo po by (simp add: parts_ok_def)
    moreover have "input = proto @ parts_tail ?q"
      using inp j(2) sa sb sc s2 by (simp add: parts_tail_def)
    moreover have "caps = parts_caps proto ?q"
      using caps c2 cc cb j(1) c1 by (simp add: parts_caps_def)
    ultimately show ?thesis using proto by blast
  next
    assume "(s2, c2) = (s1, c1)"
    then have "input = proto @ (case po of None \<Rightarrow> [] | Some r \<Rightarrow> CHR ''/'' # r) \<and>
            caps = (case po of None \<Rightarrow> [] | Some r \<Rightarrow> [(''pathname'', CHR ''/'' # r)])
                   @ [(''protocol'', proto)]"
      using inp s2 caps c1 by simp
    then show ?thesis using proto by blast
  qed
qed

section \<open>What parsePackageUrl returns\<close>

lemma map_of_parts_caps:
  "map_of (parts_caps proto q) ''protocol'' = Some proto"
  "map_of (parts_caps proto q) ''pkg'' = Some (p_pkg q)"
  "map_of (parts_caps proto q) ''scope'' = p_scope q"
  "map_of (parts_caps proto q) ''version'' = p_version q"
  "map_of (parts_caps proto q) ''pathname'' = map_option (\<lambda>r. CHR ''/'' # r) (p_path q)"
  by (simp_all add: parts_caps_def split: option.splits)

lemma exec_groups_package_shape:
  assumes "proto = ''npm:'' \<or> proto = ''jsr:''" and "parts_ok q"
  shows "exec_groups package_regex (proto @ parts_tail q) = map_of (parts_caps proto q)"
proof -
  from package_regex_first_match[OF assms] obtain ms where
    "rmatch (length (proto @ parts_tail q)) package_regex (proto @ parts_tail q) []
       = ([], parts_caps proto q) # ms"
    unfolding starts_def by blast
  then have "regex_exec package_regex (proto @ parts_tail q) =
      Some \<lparr>index = 0, matched = take (length (proto @ parts_tail q) - length ([]::string))
                (proto @ parts_tail q), groups = parts_caps proto q\<rparr>"
    using regex_exec_Bol[of _ "proto @ parts_tail q"] by (simp add: package_regex_def)
  then show ?thesis by (simp add: exec_groups_def)
qed

lemma parsePackageUrl_shape:
  assumes "proto = ''npm:'' \<or> proto = ''jsr:''" and "parts_ok q"
  shows "parsePackageUrl api (Str (proto @ parts_tail q)) = Inr (parts_result proto q)"
proof -
  have sc: "nonempty_or_undefined (p_scope q) = p_scope q"
    using assms(2) by (auto simp: parts_ok_def nonempty_or_undefined_def split: option.splits)
  have ve: "nonempty_or_undefined (p_version q) = p_version q"
    using assms(2) by (auto simp: parts_ok_def nonempty_or_undefined_def split: option.splits)
  have pa: "(case nonempty_or_undefined (map_option (\<lambda>r. CHR ''/'' # r) (p_path q)) of
               None \<Rightarrow> sep | Some s \<Rightarrow> s) = parts_pathname q"
    by (simp add: nonempty_or_undefined_def parts_pathname_def sep_def split: option.splits)
  show ?thesis
    by (simp add: parsePackageUrl_def exec_groups_package_shape[OF assms] map_of_parts_caps
        sc ve pa Let_def parts_result_def parts_host_def sep_def split: option.splits)
qed

lemma exec_groups_package_cases:
  "exec_groups package_regex input ''pkg'' = None \<or>
   (\<exists>proto q. (proto = ''npm:'' \<or> proto = ''jsr:'') \<and> parts_ok q \<and> input = proto @ parts_tail q)"
proof (cases "rmatch (length input) package_regex input []")
  case Nil
  then have "regex_exec package_regex input = None"
    using regex_exec_Bol[of _ input] by (simp add: package_regex_def)
  then show ?thesis by (simp add: exec_groups_def)
next
  case (Cons m ms)
  obtain rest caps where m: "m = (rest, caps)" by (cases m)
  have ex: "regex_exec package_regex input =
      Some \<lparr>index = 0, matched = take (length input - length rest) input, groups = caps\<rparr>"
    using regex_exec_Bol[of _ input] Cons m by (simp add: package_regex_def)
  have "(rest, caps) \<in> set (rmatch (length input) package_regex input [])"
    using Cons m by simp
  from mem_package_regex[OF this] obtain proto where
    proto: "proto = ''npm:'' \<or> proto = ''jsr:''" and
    alt: "(\<exists>q. parts_ok q \<and> input = proto @ parts_tail q \<and> caps = parts_caps proto q) \<or>
      (\<exists>po. input = proto @ (case po of None \<Rightarrow> [] | Some r \<Rightarrow> CHR ''/'' # r) \<and>
            caps = (case po of None \<Rightarrow> [] | Some r \<Rightarrow> [(''pathname'', CHR ''/'' # r)])
                   @ [(''protocol'', proto)])"
    by blast
  from alt show ?thesis
  proof
    assume "\<exists>q. parts_ok q \<and> input = proto @ parts_tail q \<and> caps = parts_caps proto q"
    then show ?thesis using proto by blast
  next
    assume "\<exists>po. input = proto @ (case po of None \<Rightarrow> [] | Some r \<Rightarrow> CHR ''/'' # r) \<and>
            caps = (case po of None \<Rightarrow> [] | Some r \<Rightarrow> [(''pathname'', CHR ''/'' # r)])
                   @ [(''protocol'', proto)]"
    then obtain po where
      "caps = (case po of None \<Rightarrow> [] | Some r \<Rightarrow> [(''pathname'', CHR ''/'' # r)])
                   @ [(''protocol'', proto)]" by blast
    then have "map_of caps ''pkg'' = None" by (simp split: option.splits)
    then show ?thesis using ex by (simp add: exec_groups_def)
  qed
qed

lemma parsePackageUrl_isl_iff:
  "isl (parsePackageUrl api (Str input)) \<longleftrightarrow>
     exec_groups package_regex input ''protocol'' = None \<or>
     exec_groups package_regex input ''pkg'' = None"
  by (simp add: parsePackageUrl_def Let_def split: option.splits)


section \<open>Claims about parsePackageUrl\<close>

text \<open>
  C4. \<open>parsePackageUrl input\<close> raises an error if and only if the package pattern fails
  to capture a protocol or a package name from the input; the error is the one that
  quotes the input, and a parse that captures both returns a record. The pattern
  captures both exactly for the strings made of \<open>npm:\<close> or \<open>jsr:\<close>, any number of
  slashes, an optional \<open>@scope/\<close>, a package name, an optional \<open>@version\<close> and an
  optional path. In particular \<open>pnpm:@scope/package@version\<close> raises, as do the two
  other documented malformed specifiers.
\<close>

theorem parsePackageUrl_raises:
  "(isl (parsePackageUrl api (Str input)) \<longleftrightarrow>
      exec_groups package_regex input ''protocol'' = None \<or>
      exec_groups package_regex input ''pkg'' = None) \<and>
   (isl (parsePackageUrl api (Str input)) \<longleftrightarrow>
      parsePackageUrl api (Str input) = Inl (InvalidPackageUrl input)) \<and>
   (isl (parsePackageUrl api (Str input)) \<longleftrightarrow>
      \<not> (\<exists>proto q. (proto = ''npm:'' \<or> proto = ''jsr:'') \<and> parts_ok q \<and>
                input = proto @ parts_tail q)) \<and>
   isl (parsePackageUrl api (Str ''pnpm:@scope/package@version'')) \<and>
   isl (parsePackageUrl api (Str ''npm:@scope/'')) \<and>
   isl (parsePackageUrl api (Str ''npm:@scope//package''))"
proof (intro conjI)
  show iff: "isl (parsePackageUrl api (Str input)) \<longleftrightarrow>
      exec_groups package_regex input ''protocol'' = None \<or>
      exec_groups package_regex input ''pkg'' = None"
    by (rule parsePackageUrl_isl_iff)
  show "isl (parsePackageUrl api (Str input)) \<longleftrightarrow>
      parsePackageUrl api (Str input) = Inl (InvalidPackageUrl input)"
    by (auto simp: parsePackageUrl_def Let_def split: option.splits)
  show "isl (parsePackageUrl api (Str input)) \<longleftrightarrow>
      \<not> (\<exists>proto q. (proto = ''npm:'' \<or> proto = ''jsr:'') \<and> parts_ok q \<and>
                input = proto @ parts_tail q)"
  proof
    assume l: "isl (parsePackageUrl api (Str input))"
    show "\<not> (\<exists>proto q. (proto = ''npm:'' \<or> proto = ''jsr:'') \<and> parts_ok q \<and>
                input = proto @ parts_tail q)"
    proof
      assume "\<exists>proto q. (proto = ''npm:'' \<or> proto = ''jsr:'') \<and> parts_ok q \<and>
                input = proto @ parts_tail q"
      then obtain proto q where "proto = ''npm:'' \<or> proto = ''jsr:''" "parts_ok q"
        "input = proto @ parts_tail q" by blast
      then have "parsePackageUrl api (Str input) = Inr (parts_result proto q)"
        using parsePackageUrl_shape by blast
      with l show False by simp
    qed
  next
    assume n: "\<not> (\<exists>proto q. (proto = ''npm:'' \<or> proto = ''jsr:'') \<and> parts_ok q \<and>
                input = proto @ parts_tail q)"
    then have "exec_groups package_regex input ''pkg'' = None"
      using exec_groups_package_cases[of input] by blast
    then show "isl (parsePackageUrl api (Str input))"
      using parsePackageUrl_isl_iff[of api input] by blast
  qed
  have "exec_groups package_regex ''pnpm:@scope/package@version'' ''protocol'' = None"
    by code_simp
  then show "isl (parsePackageUrl api (Str ''pnpm:@scope/package@version''))"
    using parsePackageUrl_isl_iff[of api] by blast
  have "exec_groups package_regex ''npm:@scope/'' ''pkg'' = None"
    by code_simp
  then show "isl (parsePackageUrl api (Str ''npm:@scope/''))"
    using parsePackageUrl_isl_iff[of api] by blast
  have "exec_groups package_regex ''npm:@scope//package'' ''pkg'' = None"
    by code_simp
  then show "isl (parsePackageUrl api (Str ''npm:@scope//package''))"
    using parsePackageUrl_isl_iff[of api] by blast
qed

section \<open>The errors of resolveAsUrl\<close>

lemma new_URL_error:
  "new_URL api input base = Inl e \<Longrightarrow> e = URL_TypeError \<or> e = URL_Unmodelled"
  by (auto simp: new_URL_def split: url_outcome.splits)

lemma parsePackageUrl_error:
  "parsePackageUrl api x = Inl e \<Longrightarrow> \<exists>s. e = InvalidPackageUrl s"
  by (auto simp: parsePackageUrl_def Let_def split: option.splits)

lemma resolveAsUrl_no_base:
  "resolveAsUrl api p None = dispatch api (pathToUnixPath p) None"
  by (simp add: resolveAsUrl.simps[of api p None] dispatch_def Let_def)

lemma resolveAsUrl_url_base:
  "resolveAsUrl api p (Some (URLobj u)) = dispatch api (pathToUnixPath p) (Some u)"
  by (simp add: resolveAsUrl.simps[of api p "Some (URLobj u)"] dispatch_def Let_def)

lemma resolveAsUrl_str_base:
  "resolveAsUrl api p (Some (Str b)) =
     (if getUriScheme b = Data \<or> getUriScheme b = Relative
      then Inl (UnsupportedBaseScheme (getUriScheme b))
      else (case resolveAsUrl api b None of
              Inl e \<Rightarrow> Inl e
            | Inr u \<Rightarrow> dispatch api (pathToUnixPath p) (Some u)))"
  by (simp add: resolveAsUrl.simps[of api p "Some (Str b)"] dispatch_def Let_def
      split: sum.splits)

lemma dispatch_error:
  "dispatch api ps bu = Inl e \<Longrightarrow>
   e = URL_TypeError \<or> e = URL_Unmodelled \<or> (\<exists>s. e = InvalidPackageUrl s)"
  by (auto simp: dispatch_def Let_def split: if_splits sum.splits option.splits
      dest: new_URL_error parsePackageUrl_error)

lemma resolveAsUrl_unsupported_iff:
  "resolveAsUrl api p base = Inl (UnsupportedBaseScheme sch) \<longleftrightarrow>
     (\<exists>b. base = Some (Str b) \<and> getUriScheme b = sch \<and> (sch = Data \<or> sch = Relative))"
proof (cases base)
  case None
  then show ?thesis using dispatch_error[of api "pathToUnixPath p" None]
    by (auto simp: resolveAsUrl_no_base)
next
  case (Some x)
  show ?thesis
  proof (cases x)
    case (Str b)
    have inner: "resolveAsUrl api b None \<noteq> Inl (UnsupportedBaseScheme sch)"
      using dispatch_error[of api "pathToUnixPath b" None] by (auto simp: resolveAsUrl_no_base)
    show ?thesis
    proof (cases "getUriScheme b = Data \<or> getUriScheme b = Relative")
      case True
      then show ?thesis using Some Str by (auto simp: resolveAsUrl_str_base)
    next
      case False
      have "resolveAsUrl api p base \<noteq> Inl (UnsupportedBaseScheme sch)"
      proof (cases "resolveAsUrl api b None")
        case (Inl e)
        then show ?thesis using Some Str False inner by (simp add: resolveAsUrl_str_base)
      next
        case (Inr u)
        then show ?thesis using Some Str False dispatch_error[of api "pathToUnixPath p" "Some u"]
          by (auto simp: resolveAsUrl_str_base)
      qed
      then show ?thesis using Some Str False by auto
    qed
  next
    case (URLobj u)
    then show ?thesis using Some dispatch_error[of api "pathToUnixPath p" "Some u"]
      by (auto simp: resolveAsUrl_url_base)
  qed
qed

lemma resolveAsUrl_relative_no_base:
  "getUriScheme (pathToUnixPath p) = Relative \<Longrightarrow>
   resolveAsUrl api p None = new_URL api (pathToUnixPath p) None"
  by (simp add: resolveAsUrl_no_base dispatch_def)

section \<open>The reference URL constructor\<close>

lemma strip_keeps_prefix:
  assumes "a \<noteq> []" and "\<not> c0_control_or_space (hd a)" and "\<not> c0_control_or_space (last a)"
  shows "\<exists>t. rev (dropWhile c0_control_or_space (rev (dropWhile c0_control_or_space (a @ b))))
              = a @ t"
proof -
  obtain x xs where a: "a = x # xs" using assms(1) by (cases a) auto
  have d1: "dropWhile c0_control_or_space (a @ b) = a @ b"
    using assms(2) a by simp
  obtain ys y where a': "a = ys @ [y]" using assms(1) by (cases a rule: rev_cases) auto
  have y: "\<not> c0_control_or_space y" using assms(3) a' by simp
  have "rev (a @ b) = rev b @ y # rev ys" using a' by simp
  then have "\<exists>zs. dropWhile c0_control_or_space (rev (a @ b)) = zs @ y # rev ys"
    using y by (cases "\<forall>z \<in> set (rev b). c0_control_or_space z") (auto simp: dropWhile_append)
  then obtain zs where "dropWhile c0_control_or_space (rev (a @ b)) = zs @ y # rev ys" by blast
  then have "rev (dropWhile c0_control_or_space (rev (a @ b))) = a @ rev zs"
    using a' by simp
  then show ?thesis using d1 by auto
qed

lemma preprocess_keeps_prefix:
  assumes "a \<noteq> []" and "\<not> c0_control_or_space (hd a)" and "\<not> c0_control_or_space (last a)"
    and "\<forall>x \<in> set a. \<not> ascii_tab_or_newline x"
  shows "\<exists>t. preprocess (a @ b) = a @ t"
proof -
  from strip_keeps_prefix[OF assms(1-3)] obtain t where
    "rev (dropWhile c0_control_or_space (rev (dropWhile c0_control_or_space (a @ b)))) = a @ t"
    by blast
  then have "preprocess (a @ b) = a @ filter (\<lambda>c. \<not> ascii_tab_or_newline c) t"
    using assms(4) by (simp add: preprocess_def)
  then show ?thesis by blast
qed

text \<open>A string that begins with a dot has no scheme: without a base the constructor
  fails.\<close>

lemma URL_constructor_dot_fails: "URL_constructor (CHR ''.'' # s) None = Failure"
proof -
  have "\<exists>t. preprocess ([CHR ''.''] @ s) = [CHR ''.''] @ t"
    by (rule preprocess_keeps_prefix)
       (simp_all add: c0_control_or_space_def ascii_tab_or_newline_def)
  then obtain t where "preprocess (CHR ''.'' # s) = CHR ''.'' # t" by auto
  then show ?thesis
    by (simp add: URL_constructor_def basic_url_parse_def scheme_start_state_def ascii_alpha_def)
qed

lemma getUriScheme_Relative_dot:
  "getUriScheme s = Relative \<Longrightarrow> \<exists>t. s = CHR ''.'' # t"
  by (auto simp: getUriScheme_def uri_protocol_and_scheme_mapping_def bind_string_startsWith_def
      prefix_def split: if_splits)

lemma reference_relative_no_base:
  "getUriScheme s = Relative \<Longrightarrow> new_URL reference_url_api s None = Inl URL_TypeError"
  using getUriScheme_Relative_dot[of s] URL_constructor_dot_fails
  by (auto simp: new_URL_def reference_url_api_def)

text \<open>A string \<open>npm:/\<close> or \<open>jsr:/\<close> followed by a code unit that is neither a slash, nor a
  tab or newline, and then by anything that contains a later slash, parses.\<close>

lemma URL_constructor_package_href:
  assumes "proto = ''npm:'' \<or> proto = ''jsr:''"
    and "h \<noteq> CHR ''/''" and "\<not> ascii_tab_or_newline h"
    and "\<forall>x \<in> set hs. \<not> ascii_tab_or_newline x"
  shows "\<exists>u. URL_constructor (proto @ CHR ''/'' # h # hs @ CHR ''/'' # r) None = Parsed u"
proof -
  let ?a = "proto @ CHR ''/'' # h # hs @ ''/''"
  have "\<exists>t. preprocess (?a @ r) = ?a @ t"
  proof (rule preprocess_keeps_prefix)
    show "?a \<noteq> []" by simp
    show "\<not> c0_control_or_space (hd ?a)"
      using assms(1) by (elim disjE) (simp_all add: c0_control_or_space_def)
    show "\<not> c0_control_or_space (last ?a)" by (simp add: c0_control_or_space_def)
    have p: "\<forall>x \<in> set proto. \<not> ascii_tab_or_newline x"
      using assms(1) by (elim disjE) (simp_all add: ascii_tab_or_newline_def)
    have sl: "\<not> ascii_tab_or_newline (CHR ''/'')" by (simp add: ascii_tab_or_newline_def)
    show "\<forall>x \<in> set ?a. \<not> ascii_tab_or_newline x"
      using p sl assms(3,4) by auto
  qed
  then obtain t where t: "preprocess (proto @ CHR ''/'' # h # hs @ CHR ''/'' # r)
      = proto @ CHR ''/'' # h # hs @ CHR ''/'' # t" by auto
  have sch: "scheme_start_state (proto @ CHR ''/'' # h # hs @ CHR ''/'' # t) =
      Some (butlast proto, CHR ''/'' # h # hs @ CHR ''/'' # t)"
    using assms(1)
    by (elim disjE)
       (simp_all add: scheme_start_state_def ascii_alpha_def scheme_char_def ascii_lower_def
        ascii_digit_def)
  have "butlast proto \<notin> set special_schemes"
    using assms(1) by (elim disjE) (simp_all add: special_schemes_def)
  then show ?thesis using t sch assms(2)
    by (simp add: URL_constructor_def basic_url_parse_def)
qed

section \<open>Re-parsing the href of a parsed specifier\<close>

lemma parsePackageUrl_Inr_shape:
  assumes "parsePackageUrl api (Str s) = Inr p"
  shows "\<exists>proto q. (proto = ''npm:'' \<or> proto = ''jsr:'') \<and> parts_ok q \<and>
           s = proto @ parts_tail q \<and> p = parts_result proto q"
proof -
  have "\<not> isl (parsePackageUrl api (Str s))" using assms by simp
  then have ne: "exec_groups package_regex s ''pkg'' \<noteq> None"
    using parsePackageUrl_isl_iff[of api s] by blast
  have "\<exists>proto q. (proto = ''npm:'' \<or> proto = ''jsr:'') \<and> parts_ok q \<and> s = proto @ parts_tail q"
  proof (rule disjE[OF exec_groups_package_cases[of s]])
    assume "exec_groups package_regex s ''pkg'' = None"
    with ne show ?thesis by contradiction
  next
    assume "\<exists>proto q. (proto = ''npm:'' \<or> proto = ''jsr:'') \<and> parts_ok q \<and> s = proto @ parts_tail q"
    then show ?thesis .
  qed
  then obtain proto q where pq: "proto = ''npm:'' \<or> proto = ''jsr:''" "parts_ok q"
    "s = proto @ parts_tail q"
    by (elim exE conjE)
  have "parsePackageUrl api (Str s) = Inr (parts_result proto q)"
    unfolding pq(3) by (rule parsePackageUrl_shape[OF pq(1,2)])
  with assms have "p = parts_result proto q" by simp
  with pq show ?thesis by (intro exI conjI)
qed

lemma href_as_specifier:
  assumes "parts_ok q"
  shows "href (parts_result proto q) =
           proto @ parts_tail (q\<lparr>p_slashes := 1,
                                 p_path := Some (case p_path q of None \<Rightarrow> [] | Some r \<Rightarrow> r)\<rparr>)"
    and "parts_ok (q\<lparr>p_slashes := 1,
                     p_path := Some (case p_path q of None \<Rightarrow> [] | Some r \<Rightarrow> r)\<rparr>)"
    and "parts_result proto (q\<lparr>p_slashes := 1,
                     p_path := Some (case p_path q of None \<Rightarrow> [] | Some r \<Rightarrow> r)\<rparr>)
           = parts_result proto q"
  using assms
  by (simp_all add: parts_result_def parts_tail_def parts_host_def parts_pathname_def parts_ok_def
      split: option.splits)

lemma parsePackageUrl_href:
  assumes "parsePackageUrl api (Str s) = Inr p"
  shows "parsePackageUrl api (Str (href p)) = Inr p"
proof -
  from parsePackageUrl_Inr_shape[OF assms] obtain proto q where
    pq: "proto = ''npm:'' \<or> proto = ''jsr:''" "parts_ok q" "p = parts_result proto q"
    by (elim exE conjE)
  let ?q = "q\<lparr>p_slashes := 1, p_path := Some (case p_path q of None \<Rightarrow> [] | Some r \<Rightarrow> r)\<rparr>"
  have "parsePackageUrl api (Str (proto @ parts_tail ?q)) = Inr (parts_result proto ?q)"
    by (rule parsePackageUrl_shape[OF pq(1) href_as_specifier(2)[OF pq(2)]])
  then show ?thesis
    using href_as_specifier(1,3)[OF pq(2), of proto] pq(3) by simp
qed

lemma not_whitespace_not_tab_or_newline:
  "x \<notin> set whitespace \<Longrightarrow> \<not> ascii_tab_or_newline x"
  by (auto simp: ascii_tab_or_newline_def whitespace_def)

lemma no_whitespace_no_tab_or_newline:
  assumes "list_all (\<lambda>x. x \<notin> set (c # whitespace)) t"
  shows "\<forall>x \<in> set t. \<not> ascii_tab_or_newline x"
proof
  fix x assume "x \<in> set t"
  with assms have "x \<notin> set whitespace" by (simp add: list_all_iff)
  then show "\<not> ascii_tab_or_newline x" by (rule not_whitespace_not_tab_or_newline)
qed

lemma parts_host_chars:
  assumes "parts_ok q"
  shows "parts_host q \<noteq> []" and "hd (parts_host q) \<noteq> CHR ''/''"
    and "\<forall>x \<in> set (parts_host q). \<not> ascii_tab_or_newline x"
proof -
  have pk: "p_pkg q \<noteq> []" "list_all (\<lambda>x. x \<notin> set (CHR ''@'' # CHR ''/'' # whitespace)) (p_pkg q)"
    using assms by (simp_all add: parts_ok_def)
  show "parts_host q \<noteq> []" using pk(1) by (simp add: parts_host_def)
  have "hd (p_pkg q) \<noteq> CHR ''/''" using pk by (cases "p_pkg q") simp_all
  then show "hd (parts_host q) \<noteq> CHR ''/''"
    using pk(1) by (simp add: parts_host_def split: option.splits)
  have at: "\<not> ascii_tab_or_newline (CHR ''@'')" "\<not> ascii_tab_or_newline (CHR ''/'')"
    by (simp_all add: ascii_tab_or_newline_def)
  have sc: "\<forall>x \<in> set s. \<not> ascii_tab_or_newline x" if "p_scope q = Some s" for s
  proof (rule no_whitespace_no_tab_or_newline)
    show "list_all (\<lambda>x. x \<notin> set (CHR ''/'' # whitespace)) s"
      using assms that by (simp add: parts_ok_def)
  qed
  have ve: "\<forall>x \<in> set v. \<not> ascii_tab_or_newline x" if "p_version q = Some v" for v
  proof (rule no_whitespace_no_tab_or_newline)
    show "list_all (\<lambda>x. x \<notin> set (CHR ''/'' # whitespace)) v"
      using assms that by (simp add: parts_ok_def)
  qed
  have "list_all (\<lambda>x. x \<notin> set (CHR ''@'' # whitespace)) (p_pkg q)"
    using pk(2) by (simp add: list_all_iff)
  then have pkc: "\<forall>x \<in> set (p_pkg q). \<not> ascii_tab_or_newline x"
    by (rule no_whitespace_no_tab_or_newline)
  show "\<forall>x \<in> set (parts_host q). \<not> ascii_tab_or_newline x"
  proof (cases "p_scope q"; cases "p_version q")
    assume "p_scope q = None" "p_version q = None"
    then show ?thesis using pkc by (simp add: parts_host_def)
  next
    fix v assume "p_scope q = None" "p_version q = Some v"
    then show ?thesis using pkc at ve[of v] by (simp add: parts_host_def ball_Un)
  next
    fix s assume "p_scope q = Some s" "p_version q = None"
    then show ?thesis using pkc at sc[of s] by (simp add: parts_host_def ball_Un)
  next
    fix s v assume "p_scope q = Some s" "p_version q = Some v"
    then show ?thesis using pkc at sc[of s] ve[of v] by (simp add: parts_host_def ball_Un)
  qed
qed

lemma href_parseable:
  assumes "parsePackageUrl api (Str s) = Inr p"
  shows "\<exists>u. URL_constructor (href p) None = Parsed u"
proof -
  from parsePackageUrl_Inr_shape[OF assms] obtain proto q where
    pq: "proto = ''npm:'' \<or> proto = ''jsr:''" "parts_ok q" "p = parts_result proto q"
    by (elim exE conjE)
  obtain h hs where h: "parts_host q = h # hs"
    using parts_host_chars(1)[OF pq(2)] by (cases "parts_host q") auto
  obtain r where r: "parts_pathname q = CHR ''/'' # r"
    by (cases "p_path q") (auto simp: parts_pathname_def)
  have hp: "h \<noteq> CHR ''/''" "\<not> ascii_tab_or_newline h" "\<forall>x \<in> set hs. \<not> ascii_tab_or_newline x"
    using parts_host_chars(2,3)[OF pq(2)] h by simp_all
  have "href p = proto @ CHR ''/'' # h # hs @ CHR ''/'' # r"
    using pq(3) h r by (simp add: parts_result_def)
  then show ?thesis
    using URL_constructor_package_href[OF pq(1) hp, of r] by simp
qed

lemma pathname_of_capture:
  assumes "parsePackageUrl api (Str s) = Inr p"
  shows "pathname p = (case exec_groups package_regex s ''pathname'' of
                         None \<Rightarrow> ''/''
                       | Some x \<Rightarrow> if x = [] then ''/'' else x)"
  using assms
  by (auto simp: parsePackageUrl_def Let_def nonempty_or_undefined_def sep_def
      split: option.splits if_splits)

section \<open>Claims about the round trip of parsePackageUrl\<close>

text \<open>
  C5. For every string \<open>s\<close> on which \<open>parsePackageUrl\<close> succeeds, the returned \<open>href\<close> is
  accepted by the URL parser, and parsing the \<open>href\<close> again succeeds with the same scope,
  package name, version and path (indeed with the same record); the path of the record
  is the captured path, and \<open>/\<close> when the captured path is missing or empty.
\<close>

theorem parsePackageUrl_round_trip:
  assumes "parsePackageUrl api (Str s) = Inr p"
  shows "(\<exists>u. URL_constructor (href p) None = Parsed u) \<and>
         (\<exists>p'. parsePackageUrl api (Str (href p)) = Inr p' \<and>
               scope p' = scope p \<and> pkg p' = pkg p \<and> version p' = version p \<and>
               pathname p' = pathname p \<and> p' = p) \<and>
         pathname p = (case exec_groups package_regex s ''pathname'' of
                         None \<Rightarrow> ''/''
                       | Some x \<Rightarrow> if x = [] then ''/'' else x)"
proof (intro conjI)
  show "\<exists>u. URL_constructor (href p) None = Parsed u"
    by (rule href_parseable[OF assms])
  have "parsePackageUrl api (Str (href p)) = Inr p"
    by (rule parsePackageUrl_href[OF assms])
  then show "\<exists>p'. parsePackageUrl api (Str (href p)) = Inr p' \<and>
               scope p' = scope p \<and> pkg p' = pkg p \<and> version p' = version p \<and>
               pathname p' = pathname p \<and> p' = p"
    by simp
  show "pathname p = (case exec_groups package_regex s ''pathname'' of
                         None \<Rightarrow> ''/''
                       | Some x \<Rightarrow> if x = [] then ''/'' else x)"
    by (rule pathname_of_capture[OF assms])
qed

theorem parsePackageUrl_round_trip_witness:
  "parsePackageUrl reference_url_api (Str ''npm:package'') =
     Inr \<lparr>href = ''npm:/package/'', protocol = ''npm:'', scope = None, pkg = ''package'',
          version = None, pathname = ''/'', host = ''package''\<rparr> \<and>
   URL_constructor ''npm:/package/'' None =
     Parsed \<lparr>u_scheme = ''npm'', u_path = [''package'', []], u_query = None, u_fragment = None\<rparr> \<and>
   parsePackageUrl reference_url_api (Str ''npm:/package/'') =
     Inr \<lparr>href = ''npm:/package/'', protocol = ''npm:'', scope = None, pkg = ''package'',
          version = None, pathname = ''/'', host = ''package''\<rparr>"
proof -
  have h: "parsePackageUrl reference_url_api (Str ''npm:package'') =
     Inr \<lparr>href = ''npm:/package/'', protocol = ''npm:'', scope = None, pkg = ''package'',
          version = None, pathname = ''/'', host = ''package''\<rparr>"
    by code_simp
  have u: "URL_constructor ''npm:/package/'' None =
     Parsed \<lparr>u_scheme = ''npm'', u_path = [''package'', []], u_query = None, u_fragment = None\<rparr>"
    by code_simp
  from parsePackageUrl_round_trip[OF h] h u show ?thesis by simp
qed

section \<open>Claims about resolveAsUrl\<close>

text \<open>
  The \<^verbatim>\<open>href\<close> of a base URL of protocol \<open>npm:\<close> need not be a package specifier: the
  base \<open>npm:react/..\<close> resolves to the URL \<open>npm:/\<close>, which \<open>parsePackageUrl\<close> refuses, and the
  error is the result of resolving a relative path against that base.
\<close>

lemma resolveAsUrl_base_href_not_a_package:
  "resolveAsUrl reference_url_api ''npm:react/..'' None =
     Inr \<lparr>u_scheme = ''npm'', u_path = [[]], u_query = None, u_fragment = None\<rparr> \<and>
   url_href reference_url_api
     \<lparr>u_scheme = ''npm'', u_path = [[]], u_query = None, u_fragment = None\<rparr> = ''npm:/'' \<and>
   resolveAsUrl reference_url_api ''./to/file.txt'' (Some (Str ''npm:react/..'')) =
     Inl (InvalidPackageUrl ''npm:/'')"
  by code_simp



text \<open>
  C7, as amended. \<open>resolveAsUrl path base\<close> raises the error of an unsupported base scheme
  exactly when the base is a string whose scheme is \<open>data\<close> or \<open>relative\<close>, whatever the
  scheme of the path: the check precedes the dispatch on the path. With a relative path
  and no base the result is that of \<open>new URL(path)\<close> without a base, which for the
  reference URL constructor is its \<open>TypeError\<close>.
\<close>

theorem resolveAsUrl_base_errors:
  "(resolveAsUrl api p base = Inl (UnsupportedBaseScheme sch) \<longleftrightarrow>
      (\<exists>b. base = Some (Str b) \<and> getUriScheme b = sch \<and> (sch = Data \<or> sch = Relative))) \<and>
   (getUriScheme (pathToUnixPath p) = Relative \<longrightarrow>
      resolveAsUrl api p None = new_URL api (pathToUnixPath p) None) \<and>
   (getUriScheme (pathToUnixPath p) = Relative \<longrightarrow>
      resolveAsUrl reference_url_api p None = Inl URL_TypeError)"
proof (intro conjI impI)
  show "resolveAsUrl api p base = Inl (UnsupportedBaseScheme sch) \<longleftrightarrow>
      (\<exists>b. base = Some (Str b) \<and> getUriScheme b = sch \<and> (sch = Data \<or> sch = Relative))"
    by (rule resolveAsUrl_unsupported_iff)
  show "resolveAsUrl api p None = new_URL api (pathToUnixPath p) None"
    if "getUriScheme (pathToUnixPath p) = Relative"
    by (rule resolveAsUrl_relative_no_base[OF that])
  show "resolveAsUrl reference_url_api p None = Inl URL_TypeError"
    if "getUriScheme (pathToUnixPath p) = Relative"
    using resolveAsUrl_relative_no_base[OF that, of reference_url_api]
      reference_relative_no_base[OF that] by simp
qed

theorem resolveAsUrl_base_errors_witness:
  "getUriScheme (pathToUnixPath ''./to/file.txt'') = Relative \<and>
   resolveAsUrl reference_url_api ''./to/file.txt'' None = Inl URL_TypeError \<and>
   resolveAsUrl reference_url_api ''./to/file.txt'' (Some (Str ''./path/''))
     = Inl (UnsupportedBaseScheme Relative)"
proof -
  have h: "getUriScheme (pathToUnixPath ''./to/file.txt'') = Relative" by code_simp
  have s: "getUriScheme ''./path/'' = Relative" by code_simp
  note t = resolveAsUrl_base_errors[of reference_url_api "''./to/file.txt''"
      "Some (Str ''./path/'')" Relative]
  from t h have b: "resolveAsUrl reference_url_api ''./to/file.txt'' None = Inl URL_TypeError"
    by blast
  from t s have a: "resolveAsUrl reference_url_api ''./to/file.txt'' (Some (Str ''./path/''))
     = Inl (UnsupportedBaseScheme Relative)"
    by blast
  from h b a show ?thesis by (intro conjI)
qed

theorem resolveAsUrl_local_path_counterexample:
  "getUriScheme (pathToUnixPath ''C:/x'') = Local \<and>
   resolveAsUrl reference_url_api ''C:/x'' (Some (Str ''./y''))
     = Inl (UnsupportedBaseScheme Relative)"
  by code_simp

end
